theory Spec2Isabelle
  imports Complex_Main "HOL-Library.Word" "HOL-Library.Log_Nat"
begin

section \<open>Analog measurements of the DropBot control board (\<^verbatim>\<open>src/analog.cpp\<close>)\<close>

text \<open>
  The module reads raw 16-bit conversions from the ADC and turns them into statistics and
  physical values. The embedding keeps the source's types: \<^verbatim>\<open>uint8_t\<close>, \<^verbatim>\<open>uint16_t\<close>
  and \<^verbatim>\<open>uint32_t\<close> are words, the hardware and the global \<^verbatim>\<open>high_voltage_\<close> are
  an explicit state, and every \<^verbatim>\<open>float\<close> and \<^verbatim>\<open>double\<close> operation is the exact
  rational operation followed by IEEE 754 rounding to nearest, ties to even. The two
  timing wrappers at the end of the file, which only measure how long the other routines
  take, are left out.
\<close>

subsection \<open>Binary floating point\<close>

text \<open>
  A finite \<^verbatim>\<open>float\<close> or \<^verbatim>\<open>double\<close> is the rational number it denotes. \<open>fl p\<close> rounds a
  rational to \<open>p\<close> significant bits (24 for \<^verbatim>\<open>float\<close>, 53 for \<^verbatim>\<open>double\<close>). The exponent
  is not bounded: the nonzero \<^verbatim>\<open>float\<close> values computed in this module lie between
  \<open>2\<^sup>-\<^sup>3\<^sup>0\<close> and \<open>2\<^sup>6\<^sup>4\<close>, and the \<^verbatim>\<open>double\<close> values between \<open>2\<^sup>-\<^sup>1\<^sup>6\<^sup>0\<close> and \<open>2\<^sup>1\<^sup>4\<^sup>0\<close>,
  inside the normal range of each format.
\<close>

definition ilog2 :: "rat \<Rightarrow> int" where
  \<comment> \<open>for \<open>0 < x\<close>: the exponent \<open>e\<close> with \<open>2\<^sup>e \<le> x < 2\<^sup>e\<^sup>+\<^sup>1\<close>\<close>
  "ilog2 x = (case quotient_of x of (a, b) \<Rightarrow>
     let d = bitlen a - bitlen b in if 2 powi d \<le> x then d else d - 1)"

definition round_even :: "rat \<Rightarrow> int" where
  \<comment> \<open>nearest integer, ties to the even one\<close>
  "round_even x = (let m = \<lfloor>x\<rfloor>; r = x - of_int m in
     if r < 1 / 2 then m else if 1 / 2 < r then m + 1 else if even m then m else m + 1)"

definition fl :: "nat \<Rightarrow> rat \<Rightarrow> rat" where
  "fl p x = (if x = 0 then 0 else
     let u = 2 powi (ilog2 \<bar>x\<bar> - int p + 1) in of_int (round_even (x / u)) * u)"

abbreviation f32 :: "rat \<Rightarrow> rat" where "f32 \<equiv> fl 24"
abbreviation f64 :: "rat \<Rightarrow> rat" where "f64 \<equiv> fl 53"

text \<open>The results of a division and of \<^verbatim>\<open>sqrt\<close>, which need not be finite.\<close>

datatype fval = Finite rat | PInf | NInf | NaN

definition fdiv :: "nat \<Rightarrow> rat \<Rightarrow> rat \<Rightarrow> fval" where
  \<comment> \<open>IEEE division of two finite values at precision \<open>p\<close>; HOL's \<open>x / 0 = 0\<close> is not used\<close>
  "fdiv p a b = (if b = 0 then (if a = 0 then NaN else if 0 < a then PInf else NInf)
                 else Finite (fl p (a / b)))"

text \<open>\<^verbatim>\<open>round\<close> of \<^verbatim>\<open>math.h\<close>: nearest integer, halfway cases away from zero.\<close>

definition c_round :: "rat \<Rightarrow> int" where
  "c_round x = (if 0 \<le> x then \<lfloor>x + 1 / 2\<rfloor> else - \<lfloor>- x + 1 / 2\<rfloor>)"

text \<open>Integer square root, by the digit recurrence on base 4.\<close>

function isqrt :: "int \<Rightarrow> int" where
  "isqrt n = (if n < 4 then (if n \<le> 0 then 0 else 1)
              else let r = 2 * isqrt (n div 4) in if (r + 1) * (r + 1) \<le> n then r + 1 else r)"
  by pat_completeness auto
termination
  by (relation "measure nat") auto

declare isqrt.simps [simp del]

definition fsqrt :: "nat \<Rightarrow> rat \<Rightarrow> rat" where
  \<comment> \<open>correctly rounded square root of \<open>0 \<le> x\<close> at precision \<open>p\<close>: with \<open>u\<close> the spacing of
      the result's binade, \<open>m = \<lfloor>\<surd>x / u\<rfloor>\<close>, and \<open>\<surd>x\<close> is compared with the midpoint
      \<open>(m + 1/2) u\<close> by comparing squares\<close>
  "fsqrt p x = (if x \<le> 0 then 0 else
     let u = 2 powi (ilog2 x div 2 - int p + 1);
         y = x / (u * u);
         m = isqrt \<lfloor>y\<rfloor>;
         h = (of_int m + 1 / 2) * (of_int m + 1 / 2)
     in of_int (if y < h then m else if h < y then m + 1 else if even m then m else m + 1) * u)"

text \<open>
  \<^verbatim>\<open>sqrt\<close> applied to a \<^verbatim>\<open>float\<close>: in a C++ translation unit the call selects the overload
  \<^verbatim>\<open>float sqrt(float)\<close>, so the root is rounded to 24 bits; its argument need not be
  finite. And the conversion of a floating value to \<^verbatim>\<open>uint16_t\<close>: the fraction is
  discarded, and the behaviour is undefined unless the truncated value fits the type.
\<close>

datatype fault = IndexOutOfRange | SignedOverflow | FloatToIntUndefined

definition sqrt_float :: "fval \<Rightarrow> fval" where
  "sqrt_float v = (case v of
       Finite x \<Rightarrow> if x < 0 then NaN else Finite (fsqrt 24 x)
     | PInf \<Rightarrow> PInf
     | NInf \<Rightarrow> NaN
     | NaN \<Rightarrow> NaN)"

definition to_uint16 :: "fval \<Rightarrow> fault + 16 word" where
  "to_uint16 v = (case v of
       Finite x \<Rightarrow> if - 1 < x \<and> x < 65536
                   then Inr (word_of_int (if 0 \<le> x then \<lfloor>x\<rfloor> else \<lceil>x\<rceil>))
                   else Inl FloatToIntUndefined
     | _ \<Rightarrow> Inl FloatToIntUndefined)"

subsection \<open>The converter and the program state\<close>

type_synonym pin = "8 word"

text \<open>
  Modelled from the spec: the two primitives of the Arduino core that the module calls,
  \<^verbatim>\<open>analogRead\<close> and \<^verbatim>\<open>analogReference\<close>, are not part of the sources. The spec gives
  them as a blocking read of one raw sample in \<open>[0, 65535]\<close> that always returns, and a
  switch of the reference source between the default (external) and the internal one.
  The value of the \<open>k\<close>-th conversion is given by the environment \<open>adc\<close>; \<open>conversions\<close>
  records, oldest first, the pin and the reference in force of every conversion made.
\<close>

datatype aref = DEFAULT | INTERNAL

record state =
  adc :: "aref \<Rightarrow> pin \<Rightarrow> nat \<Rightarrow> 16 word"
  conversions :: "(pin \<times> aref) list"
  reference :: aref
  high_voltage_cache :: rat  \<comment> \<open>the global \<^verbatim>\<open>high_voltage_\<close>\<close>

definition startup :: "(aref \<Rightarrow> pin \<Rightarrow> nat \<Rightarrow> 16 word) \<Rightarrow> state" where
  \<comment> \<open>\<^verbatim>\<open>float high_voltage_ = 0;\<close>\<close>
  "startup env = \<lparr>adc = env, conversions = [], reference = DEFAULT, high_voltage_cache = 0\<rparr>"

definition analogRead :: "pin \<Rightarrow> state \<Rightarrow> 16 word \<times> state" where
  "analogRead p s =
     (adc s (reference s) p (length (conversions s)),
      s\<lparr>conversions := conversions s @ [(p, reference s)]\<rparr>)"

definition analogReference :: "aref \<Rightarrow> state \<Rightarrow> state" where
  "analogReference r s = s\<lparr>reference := r\<rparr>"

text \<open>
  Modelled from the spec: \<^verbatim>\<open>A1\<close>, the pin of the high-voltage feedback channel, is a
  constant of the board's core; 15 is its value on the Teensy 3 boards.
\<close>

definition A1 :: pin where
  "A1 = 15"

subsection \<open>Sampling and the percentile difference\<close>

fun generate :: "nat \<Rightarrow> pin \<Rightarrow> state \<Rightarrow> 16 word list \<times> state" where
  "generate 0 p s = ([], s)"
| "generate (Suc k) p s =
     (case analogRead p s of (v, s') \<Rightarrow>
        (case generate k p s' of (vs, s'') \<Rightarrow> (v # vs, s'')))"

definition analog_reads_simple :: "pin \<Rightarrow> 16 word \<Rightarrow> state \<Rightarrow> 16 word list \<times> state" where
  "analog_reads_simple p n_samples s = generate (unat n_samples) p s"

definition percentile_index :: "rat \<Rightarrow> 16 word \<Rightarrow> fault + 16 word" where
  \<comment> \<open>\<^verbatim>\<open>(int)round((percentile / 100.) * n_samples)\<close>, stored in a \<^verbatim>\<open>uint16_t\<close>, for a finite
      percentile; the cast to \<^verbatim>\<open>int\<close> is undefined outside the range of \<^verbatim>\<open>int\<close>\<close>
  "percentile_index percentile n_samples =
     (let r = c_round (f64 (f64 (percentile / 100) * of_int (uint n_samples)))
      in if - (2 ^ 31) \<le> r \<and> r < 2 ^ 31 then Inr (word_of_int r) else Inl FloatToIntUndefined)"

definition u16_percentile_diff ::
    "pin \<Rightarrow> 16 word \<Rightarrow> rat \<Rightarrow> rat \<Rightarrow> state \<Rightarrow> (fault + 16 word) \<times> state" where
  "u16_percentile_diff p n_samples low_percentile high_percentile s =
     (case analog_reads_simple p n_samples s of (samples, s') \<Rightarrow>
        (let result = sort samples in
         case percentile_index high_percentile n_samples of
           Inl e \<Rightarrow> (Inl e, s')
         | Inr high_i \<Rightarrow>
             (case percentile_index low_percentile n_samples of
                Inl e \<Rightarrow> (Inl e, s')
              | Inr low_i \<Rightarrow>
                  if unat high_i < length result \<and> unat low_i < length result
                  then (Inr (result ! unat high_i - result ! unat low_i), s')
                  else (Inl IndexOutOfRange, s'))))"

subsection \<open>High voltage, temperature and reference voltage\<close>

definition high_voltage :: "state \<Rightarrow> rat \<times> state" where
  "high_voltage s =
     (case analogRead A1 s of (raw, s') \<Rightarrow>
        (let hv_fb = f32 (f64 (f32 (f32 (of_int (uint raw)) / f32 (2 ^ 16)) * f64 (33 / 10)));
             R8 = f32 2000000;
             R9 = f32 20000;
             hv_peak_to_peak = f32 (f32 (hv_fb * R8) / R9);
             v = f32 (f64 (f64 (1 / 2) * hv_peak_to_peak))
         in (v, s'\<lparr>high_voltage_cache := v\<rparr>)))"

fun sum_reads :: "nat \<Rightarrow> pin \<Rightarrow> 32 word \<Rightarrow> state \<Rightarrow> 32 word \<times> state" where
  \<comment> \<open>\<^verbatim>\<open>for (...) { sum += analogRead(pin); }\<close> with the number of rounds still to run; \<open>acc\<close> is the source's \<^verbatim>\<open>sum\<close>\<close>
  "sum_reads 0 p acc s = (acc, s)"
| "sum_reads (Suc k) p acc s =
     (case analogRead p s of (v, s') \<Rightarrow> sum_reads k p (acc + ucast v) s')"

definition measure_temperature :: "state \<Rightarrow> rat \<times> state" where
  "measure_temperature s =
     (let s1 = analogReference INTERNAL s in
      case sum_reads 255 38 0 s1 of (acc, s2) \<Rightarrow>
        (let s3 = analogReference DEFAULT s2;
             voltage = f32 (f64 (f64 (f64 (f32 (of_int (uint acc)) / 255) / 65535) * f64 (12 / 10)))
         in (f32 (f64 (25 + f64 (f64 (5830904 / 10000) * f64 (f64 (719 / 1000) - voltage)))), s3)))"

definition measure_aref :: "state \<Rightarrow> fval \<times> state" where
  "measure_aref s =
     (case sum_reads 255 39 0 s of (acc, s') \<Rightarrow>
        ((case fdiv 53 (f64 (f64 (1195 / 1000) * 65535)) (f32 (of_int (uint acc))) of
            Finite q \<Rightarrow> Finite (f32 (f64 (q * 255)))
          | v \<Rightarrow> v), s'))"

subsection \<open>Running maximum, running RMS and the currents\<close>

fun read_max_loop :: "nat \<Rightarrow> pin \<Rightarrow> 16 word \<Rightarrow> state \<Rightarrow> 16 word \<times> state" where
  "read_max_loop 0 p max_value s = (max_value, s)"
| "read_max_loop (Suc k) p max_value s =
     (case analogRead p s of (v, s') \<Rightarrow>
        read_max_loop k p (if v > max_value then v else max_value) s')"

definition read_max :: "pin \<Rightarrow> 32 word \<Rightarrow> state \<Rightarrow> 16 word \<times> state" where
  "read_max p n s = read_max_loop (unat n) p 0 s"

fun read_rms_loop :: "nat \<Rightarrow> pin \<Rightarrow> rat \<Rightarrow> state \<Rightarrow> (fault + rat) \<times> state" where
  \<comment> \<open>\<^verbatim>\<open>value * value\<close> is a product of two \<^verbatim>\<open>int\<close> (32 bits): undefined beyond \<open>2\<^sup>3\<^sup>1 - 1\<close>\<close>
  "read_rms_loop 0 p sum2 s = (Inr sum2, s)"
| "read_rms_loop (Suc k) p sum2 s =
     (case analogRead p s of (v, s') \<Rightarrow>
        if uint v * uint v < 2 ^ 31
        then read_rms_loop k p (f32 (sum2 + f32 (of_int (uint v * uint v)))) s'
        else (Inl SignedOverflow, s'))"

definition read_rms :: "pin \<Rightarrow> 32 word \<Rightarrow> state \<Rightarrow> (fault + 16 word) \<times> state" where
  "read_rms p n s =
     (case read_rms_loop (unat n) p 0 s of
        (Inl e, s') \<Rightarrow> (Inl e, s')
      | (Inr sum2, s') \<Rightarrow>
          (to_uint16 (sqrt_float (fdiv 24 sum2 (f32 (of_int (uint n))))), s'))"

definition sense_voltage :: "16 word \<Rightarrow> rat" where
  \<comment> \<open>\<^verbatim>\<open>static_cast<float>(raw) / (1L << 16) * 3.3\<close>, stored in a \<^verbatim>\<open>float\<close>\<close>
  "sense_voltage raw = f32 (f64 (f32 (f32 (of_int (uint raw)) / f32 (2 ^ 16)) * f64 (33 / 10)))"

definition measure_output_current :: "32 word \<Rightarrow> state \<Rightarrow> rat \<times> state" where
  "measure_output_current n s =
     (case read_max 2 n s of (m, s') \<Rightarrow>
        (f32 (f64 (sense_voltage m / f64 (f64 (51000 / 5100) * 1))), s'))"

definition measure_output_current_rms :: "32 word \<Rightarrow> state \<Rightarrow> (fault + rat) \<times> state" where
  "measure_output_current_rms n s =
     (case read_rms 2 n s of
        (Inl e, s') \<Rightarrow> (Inl e, s')
      | (Inr m, s') \<Rightarrow> (Inr (f32 (f64 (sense_voltage m / f64 (f64 (51000 / 5100) * 1)))), s'))"

definition measure_input_current :: "32 word \<Rightarrow> state \<Rightarrow> rat \<times> state" where
  "measure_input_current n s =
     (case read_max 3 n s of (m, s') \<Rightarrow>
        (f32 (f64 (sense_voltage m / f64 (3 / 100))), s'))"

subsection \<open>What a run of reads delivers\<close>

text \<open>
  The next \<open>n\<close> readings of pin \<open>p\<close> in state \<open>s\<close>, in acquisition order, and the state
  once they have been made.
\<close>

definition samples :: "pin \<Rightarrow> nat \<Rightarrow> state \<Rightarrow> 16 word list" where
  "samples p n s = map (\<lambda>i. adc s (reference s) p (length (conversions s) + i)) [0..<n]"

definition after_reads :: "pin \<Rightarrow> nat \<Rightarrow> state \<Rightarrow> state" where
  "after_reads p n s = s\<lparr>conversions := conversions s @ replicate n (p, reference s)\<rparr>"

text \<open>The running sum of squares as \<^verbatim>\<open>read_rms\<close> accumulates it, in \<^verbatim>\<open>float\<close>.\<close>

definition float_sum2 :: "16 word list \<Rightarrow> rat \<Rightarrow> rat" where
  "float_sum2 vs sum2 = fold (\<lambda>v a. f32 (a + f32 (of_int (uint v * uint v)))) vs sum2"

text \<open>The exact sum of the squares of a list of samples.\<close>

definition sum_squares :: "16 word list \<Rightarrow> int" where
  "sum_squares vs = (\<Sum>v\<leftarrow>vs. uint v * uint v)"

text \<open>Agreement up to a relative error \<open>t\<close>.\<close>

definition rel_close :: "rat \<Rightarrow> rat \<Rightarrow> rat \<Rightarrow> bool" where
  "rel_close t x y \<longleftrightarrow> \<bar>x - y\<bar> \<le> t * \<bar>y\<bar>"

definition finite_close :: "rat \<Rightarrow> fval \<Rightarrow> rat \<Rightarrow> bool" where
  "finite_close t v y = (case v of Finite r \<Rightarrow> rel_close t r y | _ \<Rightarrow> False)"

text \<open>Converters for the scenarios: constant readings, a ramp, and short sequences.\<close>

definition quiet_adc :: "aref \<Rightarrow> pin \<Rightarrow> nat \<Rightarrow> 16 word" where
  "quiet_adc r p k = 0"

definition half_scale_adc :: "aref \<Rightarrow> pin \<Rightarrow> nat \<Rightarrow> 16 word" where
  "half_scale_adc r p k = 32768"

definition ramp_adc :: "aref \<Rightarrow> pin \<Rightarrow> nat \<Rightarrow> 16 word" where
  \<comment> \<open>10, 20, 30, 40, ...\<close>
  "ramp_adc r p k = word_of_nat (10 * (k + 1))"

definition three_four_adc :: "aref \<Rightarrow> pin \<Rightarrow> nat \<Rightarrow> 16 word" where
  \<comment> \<open>3, 4, 5, ...\<close>
  "three_four_adc r p k = word_of_nat (k + 3)"

definition odd_square_adc :: "aref \<Rightarrow> pin \<Rightarrow> nat \<Rightarrow> 16 word" where
  \<comment> \<open>4097, 1, 1, ...\<close>
  "odd_square_adc r p k = (if k = 0 then 4097 else 1)"

definition large_adc :: "aref \<Rightarrow> pin \<Rightarrow> nat \<Rightarrow> 16 word" where
  "large_adc r p k = 46341"

definition limit_adc :: "aref \<Rightarrow> pin \<Rightarrow> nat \<Rightarrow> 16 word" where
  "limit_adc r p k = 46340"

section \<open>Properties of the rounding\<close>

lemma int_bitlen_rat:
  assumes "0 < a"
  shows "(2::rat) powi (bitlen a - 1) \<le> of_int a" and "(of_int a :: rat) < 2 powi (bitlen a)"
proof -
  have b: "2 ^ nat (bitlen a - 1) \<le> a" "a < 2 ^ nat (bitlen a)"
    using bitlen_bounds [OF assms] by simp_all
  have pos: "1 \<le> bitlen a"
    using assms by (simp add: bitlen_alt_def)
  have "(of_int (2 ^ nat (bitlen a - 1)) :: rat) \<le> of_int a"
    using b(1) by (simp only: of_int_le_iff)
  then show "(2::rat) powi (bitlen a - 1) \<le> of_int a"
    using pos by (simp add: power_int_def)
  have "(of_int a :: rat) < of_int (2 ^ nat (bitlen a))"
    using b(2) by (simp only: of_int_less_iff)
  then show "(of_int a :: rat) < 2 powi (bitlen a)"
    using pos by (simp add: power_int_def)
qed

lemma ilog2_bounds:
  assumes "0 < x"
  shows "2 powi (ilog2 x) \<le> x" and "x < 2 powi (ilog2 x + 1)"
proof -
  obtain a b where q: "quotient_of x = (a, b)" by (cases "quotient_of x")
  have bpos: "0 < b" using q by (rule quotient_of_denom_pos)
  have x: "x = of_int a / of_int b" using q by (rule quotient_of_div)
  have apos: "0 < a"
    using assms bpos unfolding x by (simp add: zero_less_divide_iff)
  let ?d = "bitlen a - bitlen b"
  have lo: "2 powi (?d - 1) \<le> x"
  proof -
    have "2 powi (?d - 1) = (2::rat) powi (bitlen a - 1) / 2 powi (bitlen b)"
      by (simp add: power_int_diff)
    also have "\<dots> \<le> of_int a / 2 powi (bitlen b)"
      using int_bitlen_rat(1) [OF apos] by (simp add: divide_right_mono)
    also have "\<dots> \<le> of_int a / of_int b"
      using int_bitlen_rat(2) [OF bpos] apos bpos by (simp add: frac_le)
    finally show ?thesis unfolding x .
  qed
  have hi: "x < 2 powi (?d + 1)"
  proof -
    have "of_int a / of_int b < (2::rat) powi (bitlen a) / of_int b"
      using int_bitlen_rat(2) [OF apos] bpos by (simp add: divide_strict_right_mono)
    also have "\<dots> \<le> 2 powi (bitlen a) / 2 powi (bitlen b - 1)"
      using int_bitlen_rat(1) [OF bpos] by (simp add: frac_le)
    also have "\<dots> = 2 powi (?d + 1)"
      by (simp add: power_int_diff power_int_add)
    finally show ?thesis unfolding x .
  qed
  have e: "ilog2 x = (if 2 powi ?d \<le> x then ?d else ?d - 1)"
    by (simp add: ilog2_def q Let_def)
  show "2 powi (ilog2 x) \<le> x"
    using lo by (simp add: e)
  show "x < 2 powi (ilog2 x + 1)"
    using hi by (simp add: e not_le)
qed

lemma round_even_error: "\<bar>of_int (round_even y) - y\<bar> \<le> 1 / 2"
proof -
  have "of_int \<lfloor>y\<rfloor> \<le> y" "y < of_int \<lfloor>y\<rfloor> + 1" by linarith+
  then show ?thesis
    by (auto simp: round_even_def Let_def abs_le_iff)
qed

lemma round_even_of_int: "round_even (of_int j) = j"
  by (simp add: round_even_def)

lemma fl_error:
  assumes "x \<noteq> 0"
  shows "\<bar>fl p x - x\<bar> \<le> 2 powi (ilog2 \<bar>x\<bar> - int p)"
proof -
  let ?u = "(2::rat) powi (ilog2 \<bar>x\<bar> - int p + 1)"
  have upos: "0 < ?u" by simp
  have "fl p x - x = (of_int (round_even (x / ?u)) - x / ?u) * ?u"
    using assms by (simp add: fl_def Let_def algebra_simps)
  then have "\<bar>fl p x - x\<bar> = \<bar>of_int (round_even (x / ?u)) - x / ?u\<bar> * ?u"
    by (simp add: abs_mult)
  also have "\<dots> \<le> 1 / 2 * ?u"
    using round_even_error [of "x / ?u"] upos by (intro mult_right_mono) simp_all
  also have "\<dots> = 2 powi (ilog2 \<bar>x\<bar> - int p)"
    by (simp add: power_int_add)
  finally show ?thesis .
qed

lemma fl_rel_error: "\<bar>fl p x - x\<bar> \<le> \<bar>x\<bar> / 2 ^ p"
proof (cases "x = 0")
  case True
  then show ?thesis by (simp add: fl_def)
next
  case False
  then have pos: "0 < \<bar>x\<bar>" by simp
  have "\<bar>fl p x - x\<bar> \<le> 2 powi (ilog2 \<bar>x\<bar> - int p)"
    using False by (rule fl_error)
  also have "\<dots> = 2 powi (ilog2 \<bar>x\<bar>) / 2 ^ p"
    by (simp add: power_int_diff)
  also have "\<dots> \<le> \<bar>x\<bar> / 2 ^ p"
    using ilog2_bounds(1) [OF pos] by (simp add: divide_right_mono)
  finally show ?thesis .
qed

lemma shift_mantissa:
  "k = e + int j \<Longrightarrow> of_int m * 2 powi k = of_int (m * 2 ^ j) * (2::rat) powi e"
  by (simp add: power_int_add mult_ac)

lemma ratio_grid: "x = c * u \<Longrightarrow> u \<noteq> 0 \<Longrightarrow> x / u = (c::rat)"
  by simp

lemma fl_exact:
  assumes "x = of_int m * 2 powi k" and "\<bar>m\<bar> < 2 ^ p"
  shows "fl p x = x"
proof (cases "x = 0")
  case True
  then show ?thesis by (simp add: fl_def)
next
  case False
  then have pos: "0 < \<bar>x\<bar>" by simp
  let ?e = "ilog2 \<bar>x\<bar>"
  have "2 powi ?e \<le> \<bar>x\<bar>" using ilog2_bounds(1) [OF pos] .
  also have "\<bar>x\<bar> = of_int \<bar>m\<bar> * 2 powi k"
    by (simp add: assms(1) abs_mult)
  also have "\<dots> < 2 ^ p * 2 powi k"
  proof -
    have "(of_int \<bar>m\<bar> :: rat) < of_int (2 ^ p)"
      using assms(2) by (simp only: of_int_less_iff)
    then show ?thesis by (simp add: mult_strict_right_mono)
  qed
  also have "\<dots> = 2 powi (int p + k)"
    by (simp add: power_int_add)
  finally have lt: "(2::rat) powi ?e < 2 powi (int p + k)" .
  have "?e < int p + k"
  proof (rule ccontr)
    assume "\<not> ?e < int p + k"
    then have "(2::rat) powi (int p + k) \<le> 2 powi ?e"
      by (intro power_int_increasing) simp_all
    with lt show False by simp
  qed
  then have "0 \<le> k - (?e - int p + 1)" by simp
  then obtain j :: nat where "k - (?e - int p + 1) = int j"
    using nonneg_int_cases by blast
  then have j: "k = ?e - int p + 1 + int j" by simp
  let ?u = "(2::rat) powi (?e - int p + 1)"
  have "of_int m * 2 powi k = of_int (m * 2 ^ j) * ?u"
    using j by (rule shift_mantissa)
  then have xu: "x = of_int (m * 2 ^ j) * ?u"
    by (rule trans [OF assms(1)])
  have f: "fl p x = of_int (round_even (x / ?u)) * ?u"
    using False by (simp add: fl_def Let_def)
  have r: "x / ?u = of_int (m * 2 ^ j)"
    using xu by (rule ratio_grid) simp
  have "fl p x = of_int (m * 2 ^ j) * ?u"
    unfolding f r round_even_of_int ..
  then show ?thesis
    by (rule trans) (rule xu [symmetric])
qed

section \<open>The loops, as functions of the readings\<close>

lemma after_reads_0: "after_reads p 0 s = s"
  by (simp add: after_reads_def)

lemma after_reads_Suc:
  "after_reads p k (snd (analogRead p s)) = after_reads p (Suc k) s"
  by (simp add: after_reads_def analogRead_def replicate_app_Cons_same)

lemma samples_Suc:
  "fst (analogRead p s) # samples p k (snd (analogRead p s)) = samples p (Suc k) s"
  unfolding samples_def analogRead_def
  by (simp add: map_upt_Suc del: upt_Suc)

lemma length_samples: "length (samples p n s) = n"
  by (simp add: samples_def)

lemma generate_eq: "generate k p s = (samples p k s, after_reads p k s)"
proof (induction k arbitrary: s)
  case 0
  show ?case by (simp add: samples_def after_reads_0)
next
  case (Suc k)
  obtain v s' where r: "analogRead p s = (v, s')" by (cases "analogRead p s")
  have "generate (Suc k) p s = (v # samples p k s', after_reads p k s')"
    using r Suc.IH [of s'] by simp
  also have "v # samples p k s' = samples p (Suc k) s"
    using samples_Suc [of p s k] r by simp
  also have "after_reads p k s' = after_reads p (Suc k) s"
    using after_reads_Suc [of p k s] r by simp
  finally show ?case .
qed

lemma sum_reads_state: "snd (sum_reads k p acc s) = after_reads p k s"
proof (induction k arbitrary: acc s)
  case 0
  show ?case by (simp add: after_reads_0)
next
  case (Suc k)
  obtain v s' where r: "analogRead p s = (v, s')" by (cases "analogRead p s")
  show ?case using r Suc.IH [of _ s'] after_reads_Suc [of p k s] by simp
qed

lemma read_max_loop_state: "snd (read_max_loop k p m s) = after_reads p k s"
proof (induction k arbitrary: m s)
  case 0
  show ?case by (simp add: after_reads_0)
next
  case (Suc k)
  obtain v s' where r: "analogRead p s = (v, s')" by (cases "analogRead p s")
  show ?case using r Suc.IH [of _ s'] after_reads_Suc [of p k s] by simp
qed

lemma read_max_loop_value: "fst (read_max_loop k p m s) = fold max (samples p k s) m"
proof (induction k arbitrary: m s)
  case 0
  show ?case by (simp add: samples_def)
next
  case (Suc k)
  obtain v s' where r: "analogRead p s = (v, s')" by (cases "analogRead p s")
  have "samples p (Suc k) s = v # samples p k s'"
    using samples_Suc [of p s k] r by simp
  then show ?case using r Suc.IH [of _ s'] by (auto simp: max_def)
qed

lemma after_reads_fields:
  "high_voltage_cache (after_reads p k s) = high_voltage_cache s"
  "reference (after_reads p k s) = reference s"
  "adc (after_reads p k s) = adc s"
  "conversions (after_reads p k s) = conversions s @ replicate k (p, reference s)"
  by (simp_all add: after_reads_def)

lemma read_rms_loop_frame:
  "high_voltage_cache (snd (read_rms_loop k p a s)) = high_voltage_cache s"
proof (induction k arbitrary: a s)
  case 0
  show ?case by simp
next
  case (Suc k)
  obtain v s' where r: "analogRead p s = (v, s')" by (cases "analogRead p s")
  then have "high_voltage_cache s' = high_voltage_cache s"
    by (auto simp: analogRead_def)
  then show ?case using r Suc.IH [of _ s'] by simp
qed

lemma measure_temperature_state:
  "snd (measure_temperature s) = analogReference DEFAULT (after_reads 38 255 (analogReference INTERNAL s))"
  using sum_reads_state [of 255 38 0 "analogReference INTERNAL s"]
  by (simp add: measure_temperature_def Let_def split_beta)

lemma measure_aref_state: "snd (measure_aref s) = after_reads 39 255 s"
  using sum_reads_state [of 255 39 0 s]
  by (simp add: measure_aref_def split_beta)

lemma read_rms_state: "snd (read_rms p n s) = snd (read_rms_loop (unat n) p 0 s)"
  by (auto simp: read_rms_def split: prod.splits sum.splits)

lemma measure_output_current_rms_state:
  "snd (measure_output_current_rms n s) = snd (read_rms 2 n s)"
  by (auto simp: measure_output_current_rms_def split: prod.splits sum.splits)

lemma u16_percentile_diff_state:
  "snd (u16_percentile_diff p n lo hi s) = after_reads p (unat n) s"
  by (auto simp: u16_percentile_diff_def analog_reads_simple_def generate_eq Let_def
      split: sum.splits)

section \<open>The reference source during the internal measurements\<close>

text \<open>
  Claim C3, as amended. \<^verbatim>\<open>measure_temperature\<close> selects the internal reference, makes
  its 255 conversions of pin 38 under it, and leaves the default reference selected,
  whatever was selected before the call. \<^verbatim>\<open>measure_aref\<close> never touches the reference
  source: its 255 conversions of pin 39 are made under the reference in force at the
  call, which is still in force afterwards.
\<close>

theorem reference_scoping:
  "conversions (snd (measure_temperature s)) = conversions s @ replicate 255 (38, INTERNAL)
   \<and> reference (snd (measure_temperature s)) = DEFAULT
   \<and> conversions (snd (measure_aref s)) = conversions s @ replicate 255 (39, reference s)
   \<and> reference (snd (measure_aref s)) = reference s"
  by (simp add: measure_temperature_state measure_aref_state after_reads_fields analogReference_def)

text \<open>
  The claim as stated fails twice. From startup, the conversions of \<^verbatim>\<open>measure_aref\<close> are
  all made under the default reference, not the internal one; and when the internal
  reference is selected before \<^verbatim>\<open>measure_temperature\<close>, the reference after the call
  differs from the one before it.
\<close>

theorem reference_scoping_counterexample:
  "conversions (snd (measure_aref (startup quiet_adc))) = replicate 255 (39, DEFAULT)
   \<and> reference (snd (measure_temperature (analogReference INTERNAL (startup quiet_adc))))
       \<noteq> reference (analogReference INTERNAL (startup quiet_adc))"
  by (simp add: measure_temperature_state measure_aref_state after_reads_fields analogReference_def startup_def)

section \<open>The cached high voltage is written by \<^verbatim>\<open>high_voltage\<close> only\<close>

text \<open>
  Claim C9. The cached high voltage is 0 at startup, and sampling, the percentile
  difference, the temperature and reference-voltage measurements, the running maximum,
  the running RMS and the three current measurements all leave it as it was.
\<close>

theorem high_voltage_frame:
  "high_voltage_cache (startup env) = 0
   \<and> high_voltage_cache (snd (analog_reads_simple p n16 s)) = high_voltage_cache s
   \<and> high_voltage_cache (snd (u16_percentile_diff p n16 lo hi s)) = high_voltage_cache s
   \<and> high_voltage_cache (snd (measure_temperature s)) = high_voltage_cache s
   \<and> high_voltage_cache (snd (measure_aref s)) = high_voltage_cache s
   \<and> high_voltage_cache (snd (read_max p n s)) = high_voltage_cache s
   \<and> high_voltage_cache (snd (read_rms p n s)) = high_voltage_cache s
   \<and> high_voltage_cache (snd (measure_output_current n s)) = high_voltage_cache s
   \<and> high_voltage_cache (snd (measure_output_current_rms n s)) = high_voltage_cache s
   \<and> high_voltage_cache (snd (measure_input_current n s)) = high_voltage_cache s"
  by (simp add: startup_def analog_reads_simple_def generate_eq after_reads_fields
      u16_percentile_diff_state measure_temperature_state measure_aref_state
      analogReference_def read_max_def read_max_loop_state read_rms_state
      read_rms_loop_frame measure_output_current_rms_state
      measure_output_current_def measure_input_current_def split_beta)

section \<open>The percentile difference\<close>

lemma f64_quarters: "f64 (of_int j / 4) = of_int j / 4" if "\<bar>j\<bar> < 2 ^ 53"
proof (rule fl_exact [where m = j and k = "- 2"])
  show "of_int j / 4 = rat_of_int j * 2 powi - 2"
    by (simp add: power_int_minus)
  show "\<bar>j\<bar> < 2 ^ 53" by (rule that)
qed

lemma f32_of_int: "f32 (of_int j) = of_int j" if "\<bar>j\<bar> < 2 ^ 24"
  using that by (intro fl_exact [where m = j and k = 0]) simp_all

lemma uint16_bound: "uint (n :: 16 word) < 65536" "0 \<le> uint n"
  using uint_bounded [of n] by simp_all

lemma floor_quarters: "\<lfloor>(of_int j :: rat) / 4 + 1 / 2\<rfloor> = (j + 2) div 4"
proof -
  have "(of_int j :: rat) / 4 + 1 / 2 = of_int (j + 2) / of_int 4" by simp
  then show ?thesis by (simp only: floor_divide_of_int_eq)
qed

lemma c_round_quarters:
  assumes "0 \<le> j"
  shows "c_round (of_int j / 4) = (j + 2) div 4"
proof -
  have "0 \<le> (of_int j :: rat) / 4" using assms by simp
  then have "c_round (of_int j / 4) = \<lfloor>(of_int j :: rat) / 4 + 1 / 2\<rfloor>"
    by (simp only: c_round_def if_True)
  then show ?thesis by (simp only: floor_quarters)
qed

lemma percentile_index_quarters:
  assumes "f64 (c / 100) = of_int q / 4" and "0 \<le> q" and "q \<le> 4"
  shows "percentile_index c n = Inr (word_of_int ((q * uint n + 2) div 4))"
proof -
  let ?N = "uint n"
  have b: "0 \<le> ?N" "?N < 65536" using uint16_bound [of n] by simp_all
  have qn: "0 \<le> q * ?N" "q * ?N \<le> 4 * 65536"
    using assms(2,3) b mult_mono [of q 4 ?N 65536] by simp_all
  have a: "f64 (c / 100) * of_int ?N = of_int (q * ?N) / 4"
    unfolding assms(1) by simp
  have f: "f64 (f64 (c / 100) * of_int ?N) = of_int (q * ?N) / 4"
    unfolding a using qn by (intro f64_quarters) simp
  have r: "c_round (f64 (f64 (c / 100) * of_int ?N)) = (q * ?N + 2) div 4"
    unfolding f using qn(1) by (rule c_round_quarters)
  have "- (2 ^ 31) \<le> (M + 2) div 4 \<and> (M + 2) div 4 < 2 ^ 31" if "0 \<le> M" "M \<le> 4 * 65536"
    for M :: int
    using that by simp presburger
  from this [OF qn]
  have "- (2 ^ 31) \<le> (q * ?N + 2) div 4 \<and> (q * ?N + 2) div 4 < 2 ^ 31" .
  then show ?thesis
    unfolding percentile_index_def Let_def r by (simp only: if_True simp_thms)
qed

lemma f64_consts: "f64 (25 / 100) = 1 / 4" "f64 (75 / 100) = 3 / 4" "f64 (100 / 100) = 1"
  by code_simp+

lemma percentile_index_25: "percentile_index 25 n = Inr (word_of_int ((uint n + 2) div 4))"
  using percentile_index_quarters [of 25 1 n] f64_consts by simp

lemma percentile_index_75: "percentile_index 75 n = Inr (word_of_int ((3 * uint n + 2) div 4))"
  using percentile_index_quarters [of 75 3 n] f64_consts by simp

lemma percentile_index_100: "percentile_index 100 n = Inr n"
proof -
  have "(4 * uint n + 2) div 4 = uint n" by simp
  then show ?thesis
    using percentile_index_quarters [of 100 4 n] f64_consts by simp
qed

lemma unat_small: "unat (word_of_int j :: 16 word) = nat j" if "0 \<le> j" "j < 65536"
proof -
  have "uint (word_of_int j :: 16 word) = take_bit 16 j"
    by (simp add: uint_word_of_int_eq)
  also have "\<dots> = j"
    using that by (intro take_bit_int_eq_self) simp_all
  finally show ?thesis by (simp add: unat_eq_nat_uint)
qed

lemma u16_percentile_diff_eq:
  assumes "percentile_index lo n = Inr li" and "percentile_index hi n = Inr hi_i"
  shows "u16_percentile_diff p n lo hi s =
     (if unat hi_i < unat n \<and> unat li < unat n
      then Inr (sort (samples p (unat n) s) ! unat hi_i - sort (samples p (unat n) s) ! unat li)
      else Inl IndexOutOfRange, after_reads p (unat n) s)"
proof -
  have g: "analog_reads_simple p n s = (samples p (unat n) s, after_reads p (unat n) s)"
    by (simp add: analog_reads_simple_def generate_eq)
  show ?thesis
    unfolding u16_percentile_diff_def g assms
    by (simp add: length_samples Let_def)
qed

lemma fl_abs_le: "\<bar>fl p x\<bar> \<le> 2 * \<bar>x\<bar>"
proof -
  have "\<bar>x\<bar> / 2 ^ p \<le> \<bar>x\<bar>"
    by (simp add: divide_le_eq mult_le_cancel_left1)
  then show ?thesis using fl_rel_error [of p x] by linarith
qed

lemma c_round_abs_le: "\<bar>c_round x\<bar> \<le> \<lfloor>\<bar>x\<bar>\<rfloor> + 1"
  unfolding c_round_def by (cases "0 \<le> x") (simp_all, linarith+)

lemma percentile_index_defined:
  assumes "0 \<le> c" and "c \<le> 100"
  shows "\<exists>i. percentile_index c n = Inr i"
proof -
  let ?N = "of_int (uint n) :: rat"
  have "(of_int 0 :: rat) \<le> of_int (uint n)" "(of_int (uint n) :: rat) \<le> of_int 65536"
    using uint16_bound [of n] by (simp_all only: of_int_le_iff)
  then have N: "0 \<le> ?N" "?N \<le> 65536"
    by simp_all
  have "\<bar>c / 100\<bar> \<le> 1" using assms by simp
  then have "\<bar>f64 (c / 100)\<bar> \<le> 2"
    using fl_abs_le [of 53 "c / 100"] by linarith
  then have "\<bar>f64 (c / 100) * ?N\<bar> \<le> 2 * 65536"
    unfolding abs_mult using N by (intro mult_mono) simp_all
  then have "\<bar>f64 (f64 (c / 100) * ?N)\<bar> \<le> 4 * 65536"
    using fl_abs_le [of 53 "f64 (c / 100) * ?N"] by linarith
  then have "\<lfloor>\<bar>f64 (f64 (c / 100) * ?N)\<bar>\<rfloor> \<le> 4 * 65536"
    by (simp add: floor_le_iff)
  then have "\<bar>c_round (f64 (f64 (c / 100) * ?N))\<bar> \<le> 4 * 65536 + 1"
    using c_round_abs_le [of "f64 (f64 (c / 100) * ?N)"] by linarith
  then have "- (2 ^ 31) \<le> c_round (f64 (f64 (c / 100) * ?N)) \<and> c_round (f64 (f64 (c / 100) * ?N)) < 2 ^ 31"
    by simp linarith
  then have "percentile_index c n = Inr (word_of_int (c_round (f64 (f64 (c / 100) * ?N))))"
    unfolding percentile_index_def Let_def by (simp only: if_True simp_thms)
  then show ?thesis ..
qed

text \<open>
  Claim C1, as amended. For every pin and every \<open>n \<ge> 3\<close>, the percentile difference
  with percentiles 25 and 75 reads the next \<open>n\<close> samples and returns, of their ascending
  sort, the element at index \<open>round(0.75 n)\<close> minus the element at index \<open>round(0.25 n)\<close>,
  where \<open>round\<close> is that of \<^verbatim>\<open>math.h\<close>. For the samples 10, 20, 30, 40 the result is
  \<open>40 - 20 = 20\<close> (the witness).
\<close>

theorem percentile_diff_quartiles:
  assumes "3 \<le> unat n"
  shows "u16_percentile_diff p n 25 75 s =
     (Inr (sort (samples p (unat n) s) ! nat (c_round (75 / 100 * of_nat (unat n)))
         - sort (samples p (unat n) s) ! nat (c_round (25 / 100 * of_nat (unat n)))),
      after_reads p (unat n) s)"
proof -
  let ?N = "uint n"
  have un: "?N = int (unat n)" by simp
  have b: "3 \<le> ?N" "?N < 65536"
    using assms uint16_bound [of n] un by linarith+
  have N: "(of_nat (unat n) :: rat) = of_int ?N"
    by simp
  have hi: "nat (c_round (75 / 100 * of_nat (unat n))) = nat ((3 * ?N + 2) div 4)"
    using c_round_quarters [of "3 * ?N"] b by (simp add: N)
  have lo: "nat (c_round (25 / 100 * of_nat (unat n))) = nat ((?N + 2) div 4)"
    using c_round_quarters [of "?N"] b by (simp add: N)
  have uh: "unat (word_of_int ((3 * ?N + 2) div 4) :: 16 word) = nat ((3 * ?N + 2) div 4)"
    using b by (intro unat_small) simp_all
  have ul: "unat (word_of_int ((?N + 2) div 4) :: 16 word) = nat ((?N + 2) div 4)"
    using b by (intro unat_small) simp_all
  have in_range: "nat ((3 * ?N + 2) div 4) < unat n" "nat ((?N + 2) div 4) < unat n"
    using b un by linarith+
  show ?thesis
    unfolding u16_percentile_diff_eq [OF percentile_index_25 percentile_index_75] hi lo uh ul
    using in_range by simp
qed


theorem percentile_diff_quartiles_witness:
  "3 \<le> unat (4 :: 16 word)
   \<and> u16_percentile_diff 0 4 25 75 (startup ramp_adc) = (Inr 20, after_reads 0 4 (startup ramp_adc))"
proof -
  have h: "3 \<le> unat (4 :: 16 word)" by simp
  have e: "sort (samples 0 4 (startup ramp_adc)) ! nat (c_round 3)
         - sort (samples 0 4 (startup ramp_adc)) ! nat (c_round 1) = 20"
    by code_simp
  show ?thesis
    using h percentile_diff_quartiles [OF h, of 0 "startup ramp_adc"] e by simp
qed

text \<open>
  For \<open>n = 1\<close> and \<open>n = 2\<close> the claim as stated fails: \<open>round(0.75 n)\<close> is \<open>n\<close>, one past
  the last element, and the access is out of range.
\<close>

theorem percentile_diff_quartiles_counterexample:
  "fst (u16_percentile_diff 0 1 25 75 (startup ramp_adc)) = Inl IndexOutOfRange
   \<and> fst (u16_percentile_diff 0 2 25 75 (startup ramp_adc)) = Inl IndexOutOfRange"
  by code_simp

text \<open>
  Claim C4. When both computed indices are below \<open>n\<close>, both accesses are in range and
  the routine returns the difference of the two elements. For the high percentile 100
  the computed index is \<open>n\<close> itself, and the access is out of range: nothing validates
  or clamps the index.
\<close>

theorem percentile_index_bounds:
  "(0 \<le> lo \<and> lo \<le> hi \<and> hi \<le> 100
      \<and> percentile_index lo n = Inr low_i \<and> percentile_index hi n = Inr high_i
      \<and> unat low_i < unat n \<and> unat high_i < unat n
    \<longrightarrow> fst (u16_percentile_diff p n lo hi s)
          = Inr (sort (samples p (unat n) s) ! unat high_i - sort (samples p (unat n) s) ! unat low_i))
   \<and> percentile_index 100 n = Inr n
   \<and> (0 \<le> lo \<and> lo \<le> 100 \<longrightarrow> fst (u16_percentile_diff p n lo 100 s) = Inl IndexOutOfRange)"
proof (intro conjI impI)
  assume a: "0 \<le> lo \<and> lo \<le> hi \<and> hi \<le> 100
      \<and> percentile_index lo n = Inr low_i \<and> percentile_index hi n = Inr high_i
      \<and> unat low_i < unat n \<and> unat high_i < unat n"
  then have "percentile_index lo n = Inr low_i" "percentile_index hi n = Inr high_i" by simp_all
  from u16_percentile_diff_eq [OF this] a
  show "fst (u16_percentile_diff p n lo hi s)
          = Inr (sort (samples p (unat n) s) ! unat high_i - sort (samples p (unat n) s) ! unat low_i)"
    by simp
next
  show "percentile_index 100 n = Inr n" by (rule percentile_index_100)
next
  assume "0 \<le> lo \<and> lo \<le> 100"
  then obtain i where "percentile_index lo n = Inr i"
    using percentile_index_defined [of lo n] by blast
  from u16_percentile_diff_eq [OF this percentile_index_100]
  show "fst (u16_percentile_diff p n lo 100 s) = Inl IndexOutOfRange"
    by simp
qed

theorem percentile_index_bounds_witness:
  "fst (u16_percentile_diff 0 4 25 75 (startup ramp_adc)) = Inr (40 - 20)
   \<and> percentile_index 100 (4 :: 16 word) = Inr 4
   \<and> fst (u16_percentile_diff 0 4 25 100 (startup ramp_adc)) = Inl IndexOutOfRange"
proof -
  have h: "(0::rat) \<le> 25 \<and> (25::rat) \<le> 75 \<and> (75::rat) \<le> 100
      \<and> percentile_index 25 (4 :: 16 word) = Inr 1 \<and> percentile_index 75 (4 :: 16 word) = Inr 3
      \<and> unat (1 :: 16 word) < unat (4 :: 16 word) \<and> unat (3 :: 16 word) < unat (4 :: 16 word)"
    by code_simp
  have g: "(0::rat) \<le> 25 \<and> (25::rat) \<le> 100" by simp
  have e: "sort (samples 0 (unat (4 :: 16 word)) (startup ramp_adc)) ! unat (3 :: 16 word) = 40"
    "sort (samples 0 (unat (4 :: 16 word)) (startup ramp_adc)) ! unat (1 :: 16 word) = 20"
    by code_simp+
  show ?thesis
    using percentile_index_bounds [of 25 75 4 1 3 0 "startup ramp_adc"] h g
    unfolding e by blast
qed


section \<open>The running RMS\<close>

lemma square_fits: "uint v * uint v < 2 ^ 31 \<longleftrightarrow> uint v \<le> 46340" for v :: "16 word"
proof
  assume a: "uint v * uint v < 2 ^ 31"
  show "uint v \<le> 46340"
  proof (rule ccontr)
    assume "\<not> uint v \<le> 46340"
    then have "46341 \<le> uint v" by simp
    then have "46341 * 46341 \<le> uint v * uint v"
      by (intro mult_mono) simp_all
    with a show False by simp
  qed
next
  assume "uint v \<le> 46340"
  then have "uint v * uint v \<le> 46340 * 46340"
    by (intro mult_mono) simp_all
  then show "uint v * uint v < 2 ^ 31" by simp
qed

lemma read_rms_loop_ok:
  assumes "\<forall>v \<in> set (samples p k s). uint v \<le> 46340"
  shows "read_rms_loop k p a s = (Inr (float_sum2 (samples p k s) a), after_reads p k s)"
  using assms
proof (induction k arbitrary: a s)
  case 0
  show ?case by (simp add: samples_def float_sum2_def after_reads_0)
next
  case (Suc k)
  obtain v s' where r: "analogRead p s = (v, s')" by (cases "analogRead p s")
  have sm: "samples p (Suc k) s = v # samples p k s'"
    using samples_Suc [of p s k] r by simp
  have st: "after_reads p k s' = after_reads p (Suc k) s"
    using after_reads_Suc [of p k s] r by simp
  have v: "uint v * uint v < 2 ^ 31"
    using Suc.prems sm square_fits [of v] by simp
  have rest: "\<forall>v \<in> set (samples p k s'). uint v \<le> 46340"
    using Suc.prems sm by simp
  show ?case
    using r v Suc.IH [OF rest] by (simp add: sm st float_sum2_def)
qed

lemma read_rms_loop_overflow:
  assumes "\<exists>v \<in> set (samples p k s). 46340 < uint v"
  shows "fst (read_rms_loop k p a s) = Inl SignedOverflow"
  using assms
proof (induction k arbitrary: a s)
  case 0
  then show ?case by (simp add: samples_def)
next
  case (Suc k)
  obtain v s' where r: "analogRead p s = (v, s')" by (cases "analogRead p s")
  have sm: "samples p (Suc k) s = v # samples p k s'"
    using samples_Suc [of p s k] r by simp
  show ?case
  proof (cases "uint v \<le> 46340")
    case True
    then have "\<exists>v \<in> set (samples p k s'). 46340 < uint v"
      using Suc.prems sm by auto
    from Suc.IH [OF this] True r square_fits [of v] show ?thesis
      by simp
  next
    case False
    then have "\<not> uint v * uint v < 2 ^ 31" using square_fits [of v] by simp
    then show ?thesis using r by simp
  qed
qed

lemma float_sum2_exact:
  assumes "0 \<le> j" and "j + sum_squares vs < 2 ^ 24"
  shows "float_sum2 vs (of_int j) = of_int (j + sum_squares vs)"
  using assms
proof (induction vs arbitrary: j)
  case Nil
  show ?case by (simp add: float_sum2_def sum_squares_def)
next
  case (Cons v vs)
  let ?q = "uint v * uint v"
  have q: "0 \<le> ?q" by simp
  have rest: "0 \<le> sum_squares vs"
    unfolding sum_squares_def by (rule sum_list_nonneg) auto
  have s: "sum_squares (v # vs) = ?q + sum_squares vs"
    by (simp add: sum_squares_def)
  have b: "?q < 2 ^ 24" "j + ?q < 2 ^ 24"
    using Cons.prems q rest unfolding s by linarith+
  have "f32 (of_int ?q) = of_int ?q"
    using q b(1) by (intro f32_of_int) simp
  moreover have "f32 (of_int (j + ?q)) = of_int (j + ?q)"
    using q b(2) Cons.prems(1) by (intro f32_of_int) simp
  ultimately have step: "f32 (of_int j + f32 (of_int ?q)) = of_int (j + ?q)"
    by (simp only: of_int_add)
  have "float_sum2 (v # vs) (of_int j) = float_sum2 vs (f32 (of_int j + f32 (of_int ?q)))"
    by (simp add: float_sum2_def)
  also have "\<dots> = float_sum2 vs (of_int (j + ?q))"
    by (simp only: step)
  also have "\<dots> = of_int (j + ?q + sum_squares vs)"
    using Cons.prems q unfolding s by (intro Cons.IH) linarith+
  finally show ?case unfolding s by (simp add: add.assoc)
qed


lemma fl_nonneg: "0 \<le> fl p x" if "0 \<le> x"
proof -
  have "\<bar>x\<bar> / 2 ^ p \<le> \<bar>x\<bar>"
    by (simp add: divide_le_eq mult_le_cancel_left1)
  then show ?thesis using fl_rel_error [of p x] that by linarith
qed

lemma fl_pos: "0 < fl p x" if "0 < x" "0 < p"
proof -
  have "(2::rat) ^ 1 \<le> 2 ^ p"
    using that(2) by (intro power_increasing) simp_all
  then have "x / 2 ^ p \<le> x / 2"
    using that(1) by (intro divide_left_mono) simp_all
  then show ?thesis using fl_rel_error [of p x] that(1) by linarith
qed

lemma float_sum2_nonneg: "0 \<le> float_sum2 vs a" if "0 \<le> a"
  using that
proof (induction vs arbitrary: a)
  case Nil
  then show ?case by (simp add: float_sum2_def)
next
  case (Cons v vs)
  have "0 \<le> f32 (of_int (uint v * uint v))"
    by (intro fl_nonneg) simp
  then have "0 \<le> f32 (a + f32 (of_int (uint v * uint v)))"
    using Cons.prems by (intro fl_nonneg) simp
  from Cons.IH [OF this] show ?case by (simp add: float_sum2_def)
qed

lemma isqrt_nonneg: "0 \<le> isqrt n"
proof (induction n rule: isqrt.induct)
  case (1 n)
  show ?case
  proof (cases "n < 4")
    case True
    then show ?thesis by (subst isqrt.simps) simp
  next
    case False
    with "1.IH" have "0 \<le> isqrt (n div 4)" by simp
    with False show ?thesis by (subst isqrt.simps) (simp add: Let_def)
  qed
qed

lemma fsqrt_nonneg: "0 \<le> fsqrt p x"
  using isqrt_nonneg by (simp add: fsqrt_def Let_def)

text \<open>
  The rounded square root is what its name says: \<open>isqrt\<close> is the integer square root,
  the spacing used is that of the binade of the root, and the result is within half a
  spacing of the real square root.
\<close>

lemma isqrt_correct:
  "0 \<le> n \<Longrightarrow> isqrt n * isqrt n \<le> n \<and> n < (isqrt n + 1) * (isqrt n + 1)"
proof (induction n rule: isqrt.induct)
  case (1 n)
  show ?case
  proof (cases "n < 4")
    case True
    with "1.prems" show ?thesis by (subst (1 2 3 4) isqrt.simps) auto
  next
    case False
    define q where "q = isqrt (n div 4)"
    define A where "A = q * q"
    have ih: "A \<le> n div 4" "n div 4 < A + 2 * q + 1"
      using "1.IH" [OF False] False "1.prems" unfolding q_def A_def
      by (simp_all add: algebra_simps)
    have sq: "(2 * q + 1) * (2 * q + 1) = 4 * A + 4 * q + 1" "2 * q * (2 * q) = 4 * A"
      "(2 * q + 1 + 1) * (2 * q + 1 + 1) = 4 * A + 8 * q + 4"
      unfolding A_def by (simp_all add: algebra_simps)
    have e: "isqrt n = (if (2 * q + 1) * (2 * q + 1) \<le> n then 2 * q + 1 else 2 * q)"
      using False unfolding q_def by (subst isqrt.simps) (simp add: Let_def)
    show ?thesis
    proof (cases "(2 * q + 1) * (2 * q + 1) \<le> n")
      case True
      then have r: "isqrt n = 2 * q + 1" using e by simp
      have "4 * A + 4 * q + 1 \<le> n \<and> n < 4 * A + 8 * q + 4"
        using True ih unfolding sq by presburger
      then show ?thesis unfolding r sq .
    next
      case False
      then have r: "isqrt n = 2 * q" using e by simp
      have "4 * A \<le> n \<and> n < 4 * A + 4 * q + 1"
        using False ih unfolding sq by presburger
      then show ?thesis unfolding r sq .
    qed
  qed
qed


lemma sqrt_between:
  fixes Y :: real and m :: int
  assumes "0 \<le> m" and "of_int (m * m) \<le> Y" and "Y < of_int ((m + 1) * (m + 1))"
  shows "of_int m \<le> sqrt Y" and "sqrt Y < of_int m + 1"
proof -
  have "(of_int m :: real)\<^sup>2 \<le> Y"
    using assms(2) by (simp add: power2_eq_square)
  then show "of_int m \<le> sqrt Y" by (rule real_le_rsqrt)
  have "Y < (of_int m + 1 :: real)\<^sup>2"
    using assms(3) by (simp add: power2_eq_square)
  then show "sqrt Y < of_int m + 1"
    using assms(1) by (intro real_less_lsqrt) simp_all
qed

lemma sqrt_half_cases:
  fixes Y :: real and m :: int
  assumes "0 \<le> m"
  shows "Y < (of_int m + 1 / 2)\<^sup>2 \<Longrightarrow> sqrt Y < of_int m + 1 / 2"
    and "(of_int m + 1 / 2)\<^sup>2 < Y \<Longrightarrow> of_int m + 1 / 2 < sqrt Y"
    and "Y = (of_int m + 1 / 2)\<^sup>2 \<Longrightarrow> sqrt Y = of_int m + 1 / 2"
proof -
  have p: "0 \<le> (of_int m + 1 / 2 :: real)" using assms by simp
  show "Y < (of_int m + 1 / 2)\<^sup>2 \<Longrightarrow> sqrt Y < of_int m + 1 / 2"
    using p by (intro real_less_lsqrt) simp_all
  show "(of_int m + 1 / 2)\<^sup>2 < Y \<Longrightarrow> of_int m + 1 / 2 < sqrt Y"
    by (rule real_less_rsqrt)
  show "Y = (of_int m + 1 / 2)\<^sup>2 \<Longrightarrow> sqrt Y = of_int m + 1 / 2"
    using p by simp
qed

lemma fsqrt_nearest:
  assumes "0 < x"
  shows "\<bar>sqrt (of_rat x) - of_rat (fsqrt p x)\<bar> \<le> of_rat (2 powi (ilog2 x div 2 - int p + 1)) / 2"
proof -
  define u :: rat where "u = 2 powi (ilog2 x div 2 - int p + 1)"
  define y where "y = x / (u * u)"
  define m where "m = isqrt \<lfloor>y\<rfloor>"
  define k where "k = (if y < (of_int m + 1 / 2) * (of_int m + 1 / 2) then m
     else if (of_int m + 1 / 2) * (of_int m + 1 / 2) < y then m + 1
     else if even m then m else m + 1)"
  define U :: real where "U = of_rat u"
  define Y :: real where "Y = of_rat y"
  have upos: "0 < u" unfolding u_def by simp
  then have Upos: "0 < U" unfolding U_def by simp
  have ypos: "0 < y" unfolding y_def using assms upos by simp
  then have fl0: "0 \<le> \<lfloor>y\<rfloor>" by simp
  have r: "fsqrt p x = of_int k * u"
    using assms unfolding fsqrt_def k_def m_def y_def u_def by (simp add: Let_def)
  have m0: "0 \<le> m" unfolding m_def by (rule isqrt_nonneg)
  have sq: "m * m \<le> \<lfloor>y\<rfloor>" "\<lfloor>y\<rfloor> < (m + 1) * (m + 1)"
    using isqrt_correct [OF fl0] unfolding m_def by simp_all
  have "of_int (m * m) \<le> y"
    using sq(1) by (simp only: le_floor_iff)
  then have lo: "of_int (m * m) \<le> Y"
    unfolding Y_def by (metis of_rat_less_eq of_rat_of_int_eq)
  have "y < of_int ((m + 1) * (m + 1))"
    using sq(2) by (simp only: floor_less_iff)
  then have hi: "Y < of_int ((m + 1) * (m + 1))"
    unfolding Y_def by (metis of_rat_less of_rat_of_int_eq)
  note b = sqrt_between [OF m0 lo hi]
  have h: "(of_rat ((of_int m + 1 / 2) * (of_int m + 1 / 2)) :: real) = (of_int m + 1 / 2)\<^sup>2"
    by (simp add: of_rat_mult of_rat_add of_rat_divide power2_eq_square)
  have near: "\<bar>sqrt Y - of_int k\<bar> \<le> 1 / 2"
  proof (cases "y < (of_int m + 1 / 2) * (of_int m + 1 / 2)")
    case True
    then have "Y < (of_int m + 1 / 2)\<^sup>2"
      unfolding Y_def h [symmetric] by (simp only: of_rat_less)
    then have "sqrt Y < of_int m + 1 / 2"
      by (rule sqrt_half_cases(1) [OF m0])
    moreover have "k = m" using True unfolding k_def by simp
    ultimately show ?thesis using b by simp
  next
    case False
    show ?thesis
    proof (cases "(of_int m + 1 / 2) * (of_int m + 1 / 2) < y")
      case True
      then have "(of_int m + 1 / 2)\<^sup>2 < Y"
        unfolding Y_def h [symmetric] by (simp only: of_rat_less)
      then have "of_int m + 1 / 2 < sqrt Y"
        by (rule sqrt_half_cases(2) [OF m0])
      moreover have "k = m + 1" using True False unfolding k_def by simp
      ultimately show ?thesis using b by simp
    next
      case F2: False
      with False have "y = (of_int m + 1 / 2) * (of_int m + 1 / 2)" by simp
      then have "Y = (of_int m + 1 / 2)\<^sup>2"
        unfolding Y_def h [symmetric] by simp
      then have "sqrt Y = of_int m + 1 / 2"
        by (rule sqrt_half_cases(3) [OF m0])
      moreover have "k = m \<or> k = m + 1" unfolding k_def by simp
      ultimately show ?thesis by auto
    qed
  qed
  have "x = y * (u * u)" unfolding y_def using upos by simp
  then have "(of_rat x :: real) = Y * (U * U)"
    unfolding Y_def U_def by (simp add: of_rat_mult)
  then have "sqrt (of_rat x) = sqrt Y * U"
    using Upos by (simp add: real_sqrt_mult)
  then have "\<bar>sqrt (of_rat x) - of_rat (fsqrt p x)\<bar> = \<bar>sqrt Y - of_int k\<bar> * U"
    unfolding r using Upos by (simp add: of_rat_mult U_def abs_mult flip: left_diff_distrib)
  also have "\<dots> \<le> 1 / 2 * U"
    using near Upos by (intro mult_right_mono) simp_all
  finally show ?thesis unfolding U_def u_def by simp
qed


lemma sqrt_binade:
  assumes "0 < x"
  shows "2 powi (2 * (ilog2 x div 2)) \<le> x" and "x < 2 powi (2 * (ilog2 x div 2) + 2)"
proof -
  have "(2::rat) powi (2 * (ilog2 x div 2)) \<le> 2 powi (ilog2 x)"
    by (intro power_int_increasing) simp_all
  then show "2 powi (2 * (ilog2 x div 2)) \<le> x"
    using ilog2_bounds(1) [OF assms] by simp
  have "(2::rat) powi (ilog2 x + 1) \<le> 2 powi (2 * (ilog2 x div 2) + 2)"
    by (intro power_int_increasing) simp_all
  then show "x < 2 powi (2 * (ilog2 x div 2) + 2)"
    using ilog2_bounds(2) [OF assms] by simp
qed

text \<open>
  Claim C2, as amended. For every pin and every \<open>n \<ge> 1\<close>, with samples whose squares
  fit an \<^verbatim>\<open>int\<close>, the running RMS draws \<open>n\<close> samples, accumulates the sum of their
  squares in \<^verbatim>\<open>float\<close>, and returns \<open>sqrt(sum2 / n)\<close>, taken in \<^verbatim>\<open>float\<close>, converted to
  \<^verbatim>\<open>uint16_t\<close>, that is with its fraction discarded. For the samples 3, 4 it returns 3,
  and for the single sample 4097 it returns 4097 (the witness).
\<close>

theorem read_rms_truncates:
  assumes "n \<noteq> 0" and "\<forall>v \<in> set (samples p (unat n) s). uint v \<le> 46340"
  shows "read_rms p n s =
     (let rms = fsqrt 24 (f32 (float_sum2 (samples p (unat n) s) 0 / f32 (of_int (uint n))))
      in if rms < 65536 then Inr (word_of_int \<lfloor>rms\<rfloor>) else Inl FloatToIntUndefined,
      after_reads p (unat n) s)"
proof -
  let ?sum2 = "float_sum2 (samples p (unat n) s) 0"
  let ?nf = "f32 (unsigned n)"
  have "0 < uint n" using assms(1) by (simp add: word_greater_zero_iff uint_0_iff less_le)
  then have "(of_int 0 :: rat) < of_int (uint n)" by (simp only: of_int_less_iff)
  then have "(0 :: rat) < unsigned n" by simp
  then have nf: "0 < ?nf" by (intro fl_pos) simp_all
  then have d: "fdiv 24 ?sum2 ?nf = Finite (f32 (?sum2 / ?nf))"
    by (simp add: fdiv_def)
  have "0 \<le> ?sum2 / ?nf"
    using nf float_sum2_nonneg [of 0] by simp
  then have q: "\<not> f32 (?sum2 / ?nf) < 0"
    using fl_nonneg [of "?sum2 / ?nf" 24] by simp
  have rt: "sqrt_float (Finite (f32 (?sum2 / ?nf))) = Finite (fsqrt 24 (f32 (?sum2 / ?nf)))"
    using q by (simp add: sqrt_float_def)
  have r: "read_rms p n s = (to_uint16 (Finite (fsqrt 24 (f32 (?sum2 / ?nf)))), after_reads p (unat n) s)"
    unfolding read_rms_def read_rms_loop_ok [OF assms(2)] by (simp add: d rt)
  show ?thesis
    unfolding r using fsqrt_nonneg [of 24 "f32 (?sum2 / ?nf)"]
    by (simp add: to_uint16_def Let_def)
qed


theorem read_rms_truncates_witness:
  "samples 2 2 (startup three_four_adc) = [3, 4]
   \<and> read_rms 2 2 (startup three_four_adc) = (Inr 3, after_reads 2 2 (startup three_four_adc))
   \<and> fst (read_rms 2 1 (startup odd_square_adc)) = Inr 4097
   \<and> fst (read_rms 2 1 (startup limit_adc)) = Inr 46340"
proof -
  have h1: "(2 :: 32 word) \<noteq> 0" by simp
  have h2: "\<forall>v \<in> set (samples 2 (unat (2 :: 32 word)) (startup three_four_adc)). uint v \<le> 46340"
    by code_simp
  have e: "(let rms = fsqrt 24 (f32 (float_sum2 (samples 2 (unat (2 :: 32 word)) (startup three_four_adc)) 0
                                      / f32 (of_int (uint (2 :: 32 word)))))
            in if rms < 65536 then Inr (word_of_int \<lfloor>rms\<rfloor>) else Inl FloatToIntUndefined)
           = (Inr 3 :: fault + 16 word)"
    by code_simp
  have u: "unat (2 :: 32 word) = 2" by simp
  from read_rms_truncates [OF h1 h2]
  have a: "read_rms 2 2 (startup three_four_adc)
      = (Inr 3, after_reads 2 (unat (2 :: 32 word)) (startup three_four_adc))"
    unfolding e .
  have k1: "(1 :: 32 word) \<noteq> 0" by simp
  have k2: "\<forall>v \<in> set (samples 2 (unat (1 :: 32 word)) (startup odd_square_adc)). uint v \<le> 46340"
    by code_simp
  have k3: "\<forall>v \<in> set (samples 2 (unat (1 :: 32 word)) (startup limit_adc)). uint v \<le> 46340"
    by code_simp
  have f: "(let rms = fsqrt 24 (f32 (float_sum2 (samples 2 (unat (1 :: 32 word)) (startup odd_square_adc)) 0
                                      / f32 (of_int (uint (1 :: 32 word)))))
            in if rms < 65536 then Inr (word_of_int \<lfloor>rms\<rfloor>) else Inl FloatToIntUndefined)
           = (Inr 4097 :: fault + 16 word)"
    by code_simp
  have g: "(let rms = fsqrt 24 (f32 (float_sum2 (samples 2 (unat (1 :: 32 word)) (startup limit_adc)) 0
                                      / f32 (of_int (uint (1 :: 32 word)))))
            in if rms < 65536 then Inr (word_of_int \<lfloor>rms\<rfloor>) else Inl FloatToIntUndefined)
           = (Inr 46340 :: fault + 16 word)"
    by code_simp
  have b: "fst (read_rms 2 1 (startup odd_square_adc)) = Inr 4097"
    unfolding read_rms_truncates [OF k1 k2] f by simp
  have c: "fst (read_rms 2 1 (startup limit_adc)) = Inr 46340"
    unfolding read_rms_truncates [OF k1 k3] g by simp
  have d: "samples 2 2 (startup three_four_adc) = [3, 4]" by code_simp
  show ?thesis using a b c d unfolding u by blast
qed

text \<open>
  The claim as stated fails on its own scenario: for the samples 3, 4 the square root of
  12.5 is above 3, and the routine returns the integer 3.
\<close>

theorem read_rms_truncates_counterexample:
  "fst (read_rms 2 2 (startup three_four_adc)) = Inr 3
   \<and> samples 2 2 (startup three_four_adc) = [3, 4]
   \<and> 3 < fsqrt 24 (25 / 2)"
  by code_simp

text \<open>
  Claim C5, as amended. With \<open>n = 0\<close> the running RMS is not rejected: it draws no
  sample and leaves the state as it is, divides \<open>0.0\<close> by \<open>0.0\<close>, which is NaN, takes its
  square root, still NaN, and converts that to \<^verbatim>\<open>uint16_t\<close>, which is undefined.
\<close>

theorem read_rms_zero:
  "read_rms_loop (unat (0 :: 32 word)) p 0 s = (Inr 0, s)
   \<and> fdiv 24 0 (f32 (of_int (uint (0 :: 32 word)))) = NaN
   \<and> sqrt_float NaN = NaN
   \<and> to_uint16 NaN = Inl FloatToIntUndefined
   \<and> read_rms p 0 s = (Inl FloatToIntUndefined, s)"
  by (simp add: read_rms_def fdiv_def fl_def sqrt_float_def to_uint16_def)

text \<open>
  The claim as stated fails: at \<open>n = 0\<close> the division by zero is performed and yields
  NaN, and what follows is an undefined conversion, not a typed error.
\<close>

theorem read_rms_zero_counterexample:
  "fst (read_rms 2 0 (startup three_four_adc)) = Inl FloatToIntUndefined
   \<and> conversions (snd (read_rms 2 0 (startup three_four_adc))) = []
   \<and> fdiv 24 0 (f32 (of_int (uint (0 :: 32 word)))) = NaN"
  by code_simp

text \<open>
  Claim C10, as amended. A sample's square fits the signed 32-bit product exactly when the
  sample is at most 46340. When every sample is at most 46340 no product overflows and
  the loop ends with the running \<^verbatim>\<open>float\<close> sum of the squares, which is the exact sum
  of squares whenever that sum is below \<open>2\<^sup>2\<^sup>4\<close>. A sample above 46340 overflows the
  product.
\<close>

theorem squares_in_int32:
  "(uint (w :: 16 word) * uint w < 2 ^ 31 \<longleftrightarrow> uint w \<le> 46340)
   \<and> ((\<forall>v \<in> set (samples p k s). uint v \<le> 46340)
        \<longrightarrow> fst (read_rms_loop k p 0 s) = Inr (float_sum2 (samples p k s) 0))
   \<and> ((\<forall>v \<in> set (samples p k s). uint v \<le> 46340) \<and> sum_squares (samples p k s) < 2 ^ 24
        \<longrightarrow> fst (read_rms_loop k p 0 s) = Inr (of_int (sum_squares (samples p k s))))
   \<and> ((\<exists>v \<in> set (samples p k s). 46340 < uint v)
        \<longrightarrow> fst (read_rms_loop k p 0 s) = Inl SignedOverflow)"
proof (intro conjI impI)
  show "uint w * uint w < 2 ^ 31 \<longleftrightarrow> uint w \<le> 46340" by (rule square_fits)
next
  assume "\<forall>v \<in> set (samples p k s). uint v \<le> 46340"
  then show "fst (read_rms_loop k p 0 s) = Inr (float_sum2 (samples p k s) 0)"
    by (simp add: read_rms_loop_ok)
next
  assume a: "(\<forall>v \<in> set (samples p k s). uint v \<le> 46340) \<and> sum_squares (samples p k s) < 2 ^ 24"
  have "float_sum2 (samples p k s) (of_int 0) = of_int (0 + sum_squares (samples p k s))"
    using a by (intro float_sum2_exact) simp_all
  then show "fst (read_rms_loop k p 0 s) = Inr (of_int (sum_squares (samples p k s)))"
    using a by (simp add: read_rms_loop_ok)
next
  assume "\<exists>v \<in> set (samples p k s). 46340 < uint v"
  then show "fst (read_rms_loop k p 0 s) = Inl SignedOverflow"
    by (rule read_rms_loop_overflow)
qed

theorem squares_in_int32_witness:
  "fst (read_rms_loop 2 2 0 (startup three_four_adc)) = Inr 25
   \<and> fst (read_rms_loop 2 2 0 (startup large_adc)) = Inl SignedOverflow"
proof -
  have h: "(\<forall>v \<in> set (samples 2 2 (startup three_four_adc)). uint v \<le> 46340)
      \<and> sum_squares (samples 2 2 (startup three_four_adc)) < 2 ^ 24"
    by code_simp
  have e: "sum_squares (samples 2 2 (startup three_four_adc)) = 25" by code_simp
  have g: "\<exists>v \<in> set (samples 2 2 (startup large_adc)). 46340 < uint v"
    by code_simp
  have "fst (read_rms_loop 2 2 0 (startup three_four_adc))
          = Inr (of_int (sum_squares (samples 2 2 (startup three_four_adc))))"
    using squares_in_int32 [of 46340 2 2 "startup three_four_adc"] h by blast
  then have a: "fst (read_rms_loop 2 2 0 (startup three_four_adc)) = Inr 25"
    unfolding e by simp
  have b: "fst (read_rms_loop 2 2 0 (startup large_adc)) = Inl SignedOverflow"
    using squares_in_int32 [of 46341 2 2 "startup large_adc"] g by blast
  show ?thesis using a b ..
qed

text \<open>
  The claim as stated fails beyond \<open>2\<^sup>2\<^sup>4\<close>: for the samples 4097, 1 the loop ends with
  16785408, while the exact sum of squares, 16785410, is itself a \<^verbatim>\<open>float\<close>.
\<close>

theorem squares_in_int32_counterexample:
  "samples 2 2 (startup odd_square_adc) = [4097, 1]
   \<and> fst (read_rms_loop 2 2 0 (startup odd_square_adc)) = Inr 16785408
   \<and> f32 (of_int (4097 * 4097 + 1 * 1)) = 16785410"
  by code_simp


section \<open>The scaling to physical values\<close>

text \<open>
  The formulas of the spec are over the real numbers; the code evaluates them in
  \<^verbatim>\<open>float\<close> and \<^verbatim>\<open>double\<close>. Each rounding moves a value by at most the fraction \<open>2\<^sup>-\<^sup>p\<close>
  of itself, and the lemmas below carry that bound through a computation.
\<close>

lemma rel_close_exact: "rel_close 0 x x"
  by (simp add: rel_close_def)

lemma rel_close_mono: "rel_close t x y \<Longrightarrow> t \<le> t' \<Longrightarrow> rel_close t' x y"
  unfolding rel_close_def
  by (meson abs_ge_zero mult_right_mono order_trans)

lemma rel_close_abs: "rel_close t x y \<Longrightarrow> \<bar>x\<bar> \<le> (1 + t) * \<bar>y\<bar>"
  unfolding rel_close_def by (simp add: algebra_simps)

lemma rel_close_fl:
  assumes "rel_close t x y" and "0 \<le> t"
  shows "rel_close (t + (1 + t) / 2 ^ p) (fl p x) y"
proof -
  have "\<bar>fl p x - y\<bar> \<le> \<bar>fl p x - x\<bar> + \<bar>x - y\<bar>" by simp
  also have "\<dots> \<le> \<bar>x\<bar> / 2 ^ p + t * \<bar>y\<bar>"
    using fl_rel_error [of p x] assms(1) unfolding rel_close_def by linarith
  also have "\<bar>x\<bar> / 2 ^ p \<le> (1 + t) * \<bar>y\<bar> / 2 ^ p"
    using rel_close_abs [OF assms(1)] by (simp add: divide_right_mono)
  finally have "\<bar>fl p x - y\<bar> \<le> (1 + t) * \<bar>y\<bar> / 2 ^ p + t * \<bar>y\<bar>" by simp
  then show ?thesis
    unfolding rel_close_def by (simp add: algebra_simps add_divide_distrib)
qed

lemma rel_close_scale:
  assumes "rel_close t x y"
  shows "rel_close t (x * c) (y * c)" and "rel_close t (c * x) (c * y)" and "rel_close t (x / c) (y / c)"
proof -
  have "\<bar>x * c - y * c\<bar> = \<bar>x - y\<bar> * \<bar>c\<bar>"
    by (simp add: abs_mult flip: left_diff_distrib)
  also have "\<dots> \<le> t * \<bar>y\<bar> * \<bar>c\<bar>"
    using assms unfolding rel_close_def by (intro mult_right_mono) simp_all
  finally show 1: "rel_close t (x * c) (y * c)"
    unfolding rel_close_def by (simp add: abs_mult mult.assoc)
  then show "rel_close t (c * x) (c * y)" by (simp add: mult.commute)
  have "\<bar>x / c - y / c\<bar> = \<bar>x - y\<bar> / \<bar>c\<bar>"
    by (simp flip: diff_divide_distrib)
  also have "\<dots> \<le> t * \<bar>y\<bar> / \<bar>c\<bar>"
    using assms unfolding rel_close_def by (intro divide_right_mono) simp_all
  finally show "rel_close t (x / c) (y / c)"
    unfolding rel_close_def by simp
qed

lemma f32_sample: "f32 (f32 (of_int (uint raw)) / f32 (2 ^ 16)) = of_int (uint raw) / 65536"
  for raw :: "16 word"
proof -
  have b: "\<bar>uint raw\<bar> < 2 ^ 24" using uint16_bound [of raw] by simp
  have c: "f32 (2 ^ 16) = 65536" by code_simp
  have "f32 (of_int (uint raw) / 65536) = of_int (uint raw) / 65536"
    using b by (intro fl_exact [where m = "uint raw" and k = "- 16"]) (simp_all add: power_int_minus)
  then show ?thesis
    unfolding c f32_of_int [OF b] .
qed

lemma f64_33_close: "rel_close (1 / 2 ^ 53) (f64 (33 / 10)) (33 / 10)"
  using rel_close_fl [OF rel_close_exact, of 53 "33 / 10"] by simp

lemma sense_voltage_close:
  "rel_close (1 / 2 ^ 23) (sense_voltage raw) (of_int (uint raw) / 65536 * (33 / 10))"
proof -
  let ?x = "of_int (uint raw) / 65536 :: rat"
  have "rel_close (1 / 2 ^ 53) (?x * f64 (33 / 10)) (?x * (33 / 10))"
    using f64_33_close by (rule rel_close_scale)
  then have "rel_close (1 / 2 ^ 53 + (1 + 1 / 2 ^ 53) / 2 ^ 53) (f64 (?x * f64 (33 / 10))) (?x * (33 / 10))"
    by (rule rel_close_fl) simp
  then have "rel_close (1 / 2 ^ 53 + (1 + 1 / 2 ^ 53) / 2 ^ 53 + (1 + (1 / 2 ^ 53 + (1 + 1 / 2 ^ 53) / 2 ^ 53)) / 2 ^ 24)
      (f32 (f64 (?x * f64 (33 / 10)))) (?x * (33 / 10))"
    by (rule rel_close_fl) simp
  then have "rel_close (1 / 2 ^ 23) (f32 (f64 (?x * f64 (33 / 10)))) (?x * (33 / 10))"
    by (rule rel_close_mono) simp
  then show ?thesis
    unfolding sense_voltage_def f32_sample .
qed


lemma fold_max_zero: "fold max xs (0 :: 16 word) = Max (set xs)" if "xs \<noteq> []"
proof -
  have "fold max xs (0 :: 16 word) = Max (set (0 # xs))"
    by (simp only: Max.set_eq_fold)
  also have "\<dots> = max 0 (Max (set xs))"
    using that by simp
  also have "\<dots> = Max (set xs)"
    by (simp add: max_def)
  finally show ?thesis .
qed

lemma read_max_value:
  "fst (read_max p n s) = fold max (samples p (unat n) s) 0"
  by (simp add: read_max_def read_max_loop_value)

lemma f64_10: "f64 10 = 10"
  by code_simp

lemma output_current_close:
  "rel_close (1 / 2 ^ 22) (f32 (f64 (sense_voltage m / 10)))
     ((of_int (uint m) / 65536 * (33 / 10)) / (51000 / 5100))"
proof -
  let ?v = "of_int (uint m) / 65536 * (33 / 10) :: rat"
  have "rel_close (1 / 2 ^ 23) (sense_voltage m / 10) (?v / 10)"
    using sense_voltage_close by (rule rel_close_scale)
  then have "rel_close (1 / 2 ^ 23 + (1 + 1 / 2 ^ 23) / 2 ^ 53) (f64 (sense_voltage m / 10)) (?v / 10)"
    by (rule rel_close_fl) simp
  then have "rel_close (1 / 2 ^ 23 + (1 + 1 / 2 ^ 23) / 2 ^ 53
        + (1 + (1 / 2 ^ 23 + (1 + 1 / 2 ^ 23) / 2 ^ 53)) / 2 ^ 24)
      (f32 (f64 (sense_voltage m / 10))) (?v / 10)"
    by (rule rel_close_fl) simp
  then have "rel_close (1 / 2 ^ 22) (f32 (f64 (sense_voltage m / 10))) (?v / 10)"
    by (rule rel_close_mono) simp
  then show ?thesis by simp
qed

text \<open>
  Claim C7. For every \<open>n \<ge> 1\<close> the output-current measurement takes the maximum \<open>M\<close> of
  \<open>n\<close> fresh samples of pin 2 and returns \<open>(M / 65536 * 3.3) / (51e3 / 5.1e3)\<close>, evaluated
  in floating point: the result is within the fraction \<open>2\<^sup>-\<^sup>2\<^sup>2\<close> of the exact value. For the
  maximum 32768 the voltage is 1.65 and the current 0.165, to the same precision (the
  witness).
\<close>

theorem output_current_peak:
  assumes "n \<noteq> 0"
  shows "rel_close (1 / 2 ^ 22) (fst (measure_output_current n s))
           ((of_int (uint (Max (set (samples 2 (unat n) s)))) / 65536 * (33 / 10)) / (51000 / 5100))
         \<and> snd (measure_output_current n s) = after_reads 2 (unat n) s"
proof -
  have "unat n \<noteq> 0" using assms by (simp add: unat_eq_0)
  then have "samples 2 (unat n) s \<noteq> []"
    using length_samples [of 2 "unat n" s] by auto
  then have m: "fst (read_max 2 n s) = Max (set (samples 2 (unat n) s))"
    unfolding read_max_value by (rule fold_max_zero)
  have v: "fst (measure_output_current n s) = f32 (f64 (sense_voltage (fst (read_max 2 n s)) / 10))"
    by (simp add: measure_output_current_def split_beta f64_10)
  have st: "snd (measure_output_current n s) = after_reads 2 (unat n) s"
    by (simp add: measure_output_current_def split_beta read_max_def read_max_loop_state)
  show ?thesis
    unfolding v m using output_current_close st by simp
qed

theorem output_current_peak_witness:
  "rel_close (1 / 2 ^ 22) (fst (measure_output_current 1 (startup half_scale_adc))) (165 / 1000)
   \<and> rel_close (1 / 2 ^ 23) (sense_voltage 32768) (165 / 100)"
proof -
  have h: "(1 :: 32 word) \<noteq> 0" by simp
  have m: "Max (set (samples 2 (unat (1 :: 32 word)) (startup half_scale_adc))) = 32768"
    by code_simp
  have "rel_close (1 / 2 ^ 22) (fst (measure_output_current 1 (startup half_scale_adc)))
          ((of_int (uint (32768 :: 16 word)) / 65536 * (33 / 10)) / (51000 / 5100))"
    using output_current_peak [OF h, of "startup half_scale_adc"] unfolding m by blast
  moreover have "rel_close (1 / 2 ^ 23) (sense_voltage 32768) (of_int (uint (32768 :: 16 word)) / 65536 * (33 / 10))"
    by (rule sense_voltage_close)
  ultimately show ?thesis by simp
qed


lemma f32_consts: "f32 2000000 = 2000000" "f32 20000 = 20000" "f64 (1 / 2) = 1 / 2"
  by code_simp+

lemma high_voltage_value:
  "fst (high_voltage s) =
     f32 (f64 (1 / 2 * f32 (f32 (sense_voltage (fst (analogRead A1 s)) * 2000000) / 20000)))"
  by (simp add: high_voltage_def split_beta Let_def sense_voltage_def f32_consts)

lemma high_voltage_close:
  "rel_close (1 / 2 ^ 21) (f32 (f64 (1 / 2 * f32 (f32 (sense_voltage raw * 2000000) / 20000))))
     (1 / 2 * (of_int (uint raw) / 65536 * (33 / 10)) * (2000000 / 20000))"
proof -
  let ?v = "of_int (uint raw) / 65536 * (33 / 10) :: rat"
  let ?t1 = "1 / 2 ^ 23 + (1 + 1 / 2 ^ 23) / 2 ^ 24 :: rat"
  let ?t2 = "?t1 + (1 + ?t1) / 2 ^ 24"
  let ?t3 = "?t2 + (1 + ?t2) / 2 ^ 53"
  let ?t4 = "?t3 + (1 + ?t3) / 2 ^ 24"
  have "rel_close (1 / 2 ^ 23) (sense_voltage raw * 2000000) (?v * 2000000)"
    using sense_voltage_close by (rule rel_close_scale)
  then have "rel_close ?t1 (f32 (sense_voltage raw * 2000000)) (?v * 2000000)"
    by (rule rel_close_fl) simp
  then have "rel_close ?t1 (f32 (sense_voltage raw * 2000000) / 20000) (?v * 2000000 / 20000)"
    by (rule rel_close_scale)
  then have "rel_close ?t2 (f32 (f32 (sense_voltage raw * 2000000) / 20000)) (?v * 2000000 / 20000)"
    by (rule rel_close_fl) simp
  then have "rel_close ?t2 (1 / 2 * f32 (f32 (sense_voltage raw * 2000000) / 20000))
      (1 / 2 * (?v * 2000000 / 20000))"
    by (rule rel_close_scale)
  then have "rel_close ?t3 (f64 (1 / 2 * f32 (f32 (sense_voltage raw * 2000000) / 20000)))
      (1 / 2 * (?v * 2000000 / 20000))"
    by (rule rel_close_fl) simp
  then have "rel_close ?t4 (f32 (f64 (1 / 2 * f32 (f32 (sense_voltage raw * 2000000) / 20000))))
      (1 / 2 * (?v * 2000000 / 20000))"
    by (rule rel_close_fl) simp
  then have "rel_close (1 / 2 ^ 21) (f32 (f64 (1 / 2 * f32 (f32 (sense_voltage raw * 2000000) / 20000))))
      (1 / 2 * (?v * 2000000 / 20000))"
    by (rule rel_close_mono) simp
  then show ?thesis by simp
qed

lemma high_voltage_state:
  "snd (high_voltage s) = (snd (analogRead A1 s))\<lparr>high_voltage_cache := fst (high_voltage s)\<rparr>"
  by (simp add: high_voltage_def split_beta Let_def)

text \<open>
  Claim C6. For the raw reading \<open>R\<close> of the feedback pin, \<^verbatim>\<open>high_voltage\<close> returns
  \<open>0.5 * ((R / 65536) * 3.3) * (2e6 / 20e3)\<close>, evaluated in floating point (within the
  fraction \<open>2\<^sup>-\<^sup>2\<^sup>1\<close> of the exact value), after one conversion of that pin. The cached
  value is then the very value returned, and it is still that value after any other
  routine of the module has run.
\<close>

theorem high_voltage_cached:
  "high_voltage_cache (snd (high_voltage s)) = fst (high_voltage s)
   \<and> rel_close (1 / 2 ^ 21) (fst (high_voltage s))
        (1 / 2 * (of_int (uint (adc s (reference s) A1 (length (conversions s)))) / 65536 * (33 / 10))
           * (2000000 / 20000))
   \<and> conversions (snd (high_voltage s)) = conversions s @ [(A1, reference s)]
   \<and> high_voltage_cache (snd (analog_reads_simple p n16 (snd (high_voltage s)))) = fst (high_voltage s)
   \<and> high_voltage_cache (snd (u16_percentile_diff p n16 lo hi (snd (high_voltage s)))) = fst (high_voltage s)
   \<and> high_voltage_cache (snd (measure_temperature (snd (high_voltage s)))) = fst (high_voltage s)
   \<and> high_voltage_cache (snd (measure_aref (snd (high_voltage s)))) = fst (high_voltage s)
   \<and> high_voltage_cache (snd (read_max p n (snd (high_voltage s)))) = fst (high_voltage s)
   \<and> high_voltage_cache (snd (read_rms p n (snd (high_voltage s)))) = fst (high_voltage s)
   \<and> high_voltage_cache (snd (measure_output_current n (snd (high_voltage s)))) = fst (high_voltage s)
   \<and> high_voltage_cache (snd (measure_output_current_rms n (snd (high_voltage s)))) = fst (high_voltage s)
   \<and> high_voltage_cache (snd (measure_input_current n (snd (high_voltage s)))) = fst (high_voltage s)"
proof -
  have c: "high_voltage_cache (snd (high_voltage s)) = fst (high_voltage s)"
    by (simp add: high_voltage_state)
  have r: "fst (analogRead A1 s) = adc s (reference s) A1 (length (conversions s))"
    by (simp add: analogRead_def)
  have v: "rel_close (1 / 2 ^ 21) (fst (high_voltage s))
        (1 / 2 * (of_int (uint (adc s (reference s) A1 (length (conversions s)))) / 65536 * (33 / 10))
           * (2000000 / 20000))"
    unfolding high_voltage_value r by (rule high_voltage_close)
  have l: "conversions (snd (high_voltage s)) = conversions s @ [(A1, reference s)]"
    by (simp add: high_voltage_state analogRead_def)
  have f: "high_voltage_cache (snd (analog_reads_simple p n16 t)) = high_voltage_cache t
      \<and> high_voltage_cache (snd (u16_percentile_diff p n16 lo hi t)) = high_voltage_cache t
      \<and> high_voltage_cache (snd (measure_temperature t)) = high_voltage_cache t
      \<and> high_voltage_cache (snd (measure_aref t)) = high_voltage_cache t
      \<and> high_voltage_cache (snd (read_max p n t)) = high_voltage_cache t
      \<and> high_voltage_cache (snd (read_rms p n t)) = high_voltage_cache t
      \<and> high_voltage_cache (snd (measure_output_current n t)) = high_voltage_cache t
      \<and> high_voltage_cache (snd (measure_output_current_rms n t)) = high_voltage_cache t
      \<and> high_voltage_cache (snd (measure_input_current n t)) = high_voltage_cache t" for t
    by (simp add: analog_reads_simple_def generate_eq after_reads_fields
      u16_percentile_diff_state measure_temperature_state measure_aref_state
      analogReference_def read_max_def read_max_loop_state read_rms_state
      read_rms_loop_frame measure_output_current_rms_state
      measure_output_current_def measure_input_current_def split_beta)
  show ?thesis
    using c v l f [of "snd (high_voltage s)"] by (simp only: simp_thms)
qed


lemma sum_reads_total:
  "fst (sum_reads k p acc s) = acc + word_of_int (sum_list (map uint (samples p k s)))"
proof (induction k arbitrary: acc s)
  case 0
  show ?case by (simp add: samples_def)
next
  case (Suc k)
  obtain v s' where r: "analogRead p s = (v, s')" by (cases "analogRead p s")
  have "fst (sum_reads (Suc k) p acc s)
      = acc + ucast v + word_of_int (sum_list (map uint (samples p k s')))"
    using r Suc.IH [of _ s'] by simp
  moreover have "samples p (Suc k) s = v # samples p k s'"
    using samples_Suc [of p s k] r by simp
  ultimately show ?case by (simp add: add.assoc)
qed

lemma sum_uint_bounds:
  "0 \<le> sum_list (map uint vs)" "sum_list (map uint vs) \<le> 65535 * int (length vs)"
  for vs :: "16 word list"
proof -
  show "0 \<le> sum_list (map uint vs)"
    by (rule sum_list_nonneg) auto
  show "sum_list (map uint vs) \<le> 65535 * int (length vs)"
  proof (induction vs)
    case Nil
    show ?case by simp
  next
    case (Cons v vs)
    have "uint v \<le> 65535" using uint16_bound(1) [of v] by simp
    with Cons show ?case by (simp add: algebra_simps)
  qed
qed

lemma measure_aref_total:
  "uint (fst (sum_reads 255 39 0 s)) = sum_list (map uint (samples 39 255 s))"
proof -
  let ?T = "sum_list (map uint (samples 39 255 s))"
  have b: "0 \<le> ?T" "?T \<le> 65535 * 255"
    using sum_uint_bounds [of "samples 39 255 s"] by (simp_all add: length_samples)
  have "uint (word_of_int ?T :: 32 word) = take_bit 32 ?T"
    by (simp add: uint_word_of_int_eq)
  also have "\<dots> = ?T"
    using b by (intro take_bit_int_eq_self) simp_all
  finally show ?thesis by (simp add: sum_reads_total)
qed

lemma measure_aref_total_rat:
  "(unsigned (fst (sum_reads 255 39 0 s)) :: rat) = of_int (sum_list (map uint (samples 39 255 s)))"
  by (simp flip: measure_aref_total)

lemma aref_numerator_pos: "0 < f64 (f64 (1195 / 1000) * 65535)"
  by (intro fl_pos mult_pos_pos) simp_all

lemma aref_close:
  assumes "0 < T" and "T < 2 ^ 24"
  shows "rel_close (1 / 2 ^ 23) (f32 (f64 (f64 (f64 (f64 (1195 / 1000) * 65535) / f32 (of_int T)) * 255)))
     (1195 / 1000 * 65535 / (of_int T / 255))"
proof -
  let ?e = "1 / 2 ^ 53 :: rat"
  let ?t1 = "?e + (1 + ?e) / 2 ^ 53"
  let ?t2 = "?t1 + (1 + ?t1) / 2 ^ 53"
  let ?t3 = "?t2 + (1 + ?t2) / 2 ^ 53"
  let ?t4 = "?t3 + (1 + ?t3) / 2 ^ 24"
  have T: "f32 (of_int T) = of_int T"
    using assms by (intro f32_of_int) simp
  have "rel_close ?e (f64 (1195 / 1000)) (1195 / 1000)"
    using rel_close_fl [OF rel_close_exact, of 53 "1195 / 1000"] by simp
  then have "rel_close ?e (f64 (1195 / 1000) * 65535) (1195 / 1000 * 65535)"
    by (rule rel_close_scale)
  then have "rel_close ?t1 (f64 (f64 (1195 / 1000) * 65535)) (1195 / 1000 * 65535)"
    by (rule rel_close_fl) simp
  then have "rel_close ?t1 (f64 (f64 (1195 / 1000) * 65535) / of_int T) (1195 / 1000 * 65535 / of_int T)"
    by (rule rel_close_scale)
  then have "rel_close ?t2 (f64 (f64 (f64 (1195 / 1000) * 65535) / of_int T)) (1195 / 1000 * 65535 / of_int T)"
    by (rule rel_close_fl) simp
  then have "rel_close ?t2 (f64 (f64 (f64 (1195 / 1000) * 65535) / of_int T) * 255)
      (1195 / 1000 * 65535 / of_int T * 255)"
    by (rule rel_close_scale)
  then have "rel_close ?t3 (f64 (f64 (f64 (f64 (1195 / 1000) * 65535) / of_int T) * 255))
      (1195 / 1000 * 65535 / of_int T * 255)"
    by (rule rel_close_fl) simp
  then have "rel_close ?t4 (f32 (f64 (f64 (f64 (f64 (1195 / 1000) * 65535) / of_int T) * 255)))
      (1195 / 1000 * 65535 / of_int T * 255)"
    by (rule rel_close_fl) simp
  then have "rel_close (1 / 2 ^ 23) (f32 (f64 (f64 (f64 (f64 (1195 / 1000) * 65535) / of_int T) * 255)))
      (1195 / 1000 * 65535 / of_int T * 255)"
    by (rule rel_close_mono) simp
  then show ?thesis unfolding T by simp
qed

text \<open>
  Claim C8. The reference-voltage calibration makes 255 conversions of pin 39 and returns
  \<open>1.195 * 65535 / mean\<close>, with \<open>mean\<close> the arithmetic mean of the 255 samples, evaluated
  in floating point (within the fraction \<open>2\<^sup>-\<^sup>2\<^sup>3\<close> of the exact value); when all samples
  are 0 the division by the zero sum gives \<open>+\<infinity>\<close>.
\<close>

theorem aref_calibration:
  "snd (measure_aref s) = after_reads 39 255 s
   \<and> (sum_list (map uint (samples 39 255 s)) = 0 \<longrightarrow> fst (measure_aref s) = PInf)
   \<and> (sum_list (map uint (samples 39 255 s)) \<noteq> 0 \<longrightarrow>
        finite_close (1 / 2 ^ 23) (fst (measure_aref s))
          (1195 / 1000 * 65535 / (of_int (sum_list (map uint (samples 39 255 s))) / 255)))"
proof (intro conjI impI)
  let ?T = "sum_list (map uint (samples 39 255 s))"
  let ?c = "f64 (f64 (1195 / 1000) * 65535)"
  have v: "fst (measure_aref s) =
      (case fdiv 53 ?c (f32 (of_int ?T)) of Finite q \<Rightarrow> Finite (f32 (f64 (q * 255))) | v \<Rightarrow> v)"
    by (simp add: measure_aref_def split_beta measure_aref_total_rat)
  show "snd (measure_aref s) = after_reads 39 255 s" by (rule measure_aref_state)
  {
    assume "?T = 0"
    then show "fst (measure_aref s) = PInf"
      unfolding v using aref_numerator_pos by (simp add: fdiv_def fl_def)
  }
  {
    assume "?T \<noteq> 0"
    then have b: "0 < ?T" "?T < 2 ^ 24"
      using sum_uint_bounds [of "samples 39 255 s"] by (simp_all add: length_samples)
    then have "(of_int 0 :: rat) < of_int ?T" by (simp only: of_int_less_iff)
    then have "0 < f32 (of_int ?T)" by (intro fl_pos) simp_all
    then have "fst (measure_aref s) = Finite (f32 (f64 (f64 (?c / f32 (of_int ?T)) * 255)))"
      unfolding v by (simp add: fdiv_def)
    then show "finite_close (1 / 2 ^ 23) (fst (measure_aref s)) (1195 / 1000 * 65535 / (of_int ?T / 255))"
      using aref_close [OF b] by (simp add: finite_close_def)
  }
qed

theorem aref_calibration_witness:
  "fst (measure_aref (startup quiet_adc)) = PInf
   \<and> finite_close (1 / 2 ^ 23) (fst (measure_aref (startup half_scale_adc))) (1195 / 1000 * 65535 / 32768)"
proof -
  have z: "sum_list (map uint (samples 39 255 (startup quiet_adc))) = 0"
    by (simp add: samples_def startup_def quiet_adc_def comp_def map_replicate_const sum_list_replicate)
  have "map uint (samples 39 255 (startup half_scale_adc)) = replicate 255 32768"
    by (simp add: samples_def startup_def half_scale_adc_def comp_def map_replicate_const)
  then have h: "sum_list (map uint (samples 39 255 (startup half_scale_adc))) = 255 * 32768"
    by (simp add: sum_list_replicate)
  have a: "fst (measure_aref (startup quiet_adc)) = PInf"
    using aref_calibration [of "startup quiet_adc"] z by blast
  have "finite_close (1 / 2 ^ 23) (fst (measure_aref (startup half_scale_adc)))
      (1195 / 1000 * 65535 / (of_int (255 * 32768) / 255))"
    using aref_calibration [of "startup half_scale_adc"] unfolding h by simp
  then show ?thesis using a by simp
qed


end
